theory Spec2Isabelle
  imports Main "HOL-Library.Word"
begin

unbundle bit_operations_syntax

section \<open>Data model of fs/verity/verify.c\<close>

text \<open>
  Machine integers: \<open>u8\<close>, \<open>unsigned int\<close> (\<open>u32\<close>) and \<open>u64\<close>; \<open>unsigned long\<close>,
  \<open>size_t\<close> and \<open>pgoff_t\<close> are 64 bits wide (a 64-bit kernel). Shift counts and the
  level counter are small and are kept as \<open>nat\<close>.
\<close>

type_synonym u8 = "8 word"
type_synonym u32 = "32 word"
type_synonym u64 = "64 word"

text \<open>
  A kernel virtual address handed out by \<open>kmap_local_page\<close> or \<open>kmap_local_folio\<close>:
  the mapped object (a Merkle tree page, by its page index, or a data folio, by its
  index) and the byte offset into it. A \<open>view\<close> is such a pointer together with the
  bytes that are readable from it onwards.
\<close>

datatype kaddr = NULL | Page_addr u64 u32 | Folio_addr u64 u64

record view =
  v_addr :: kaddr
  v_bytes :: "u8 list"

definition null_view :: view where
  "null_view = \<lparr>v_addr = NULL, v_bytes = []\<rparr>"

text \<open>\<open>struct page\<close> of a cached Merkle tree page: its index and its contents.\<close>

record page =
  pg_index :: u64
  pg_data :: "u8 list"

text \<open>The messages of \<open>fsverity_err\<close>.\<close>

datatype errmsg =
    Err_past_EOF_not_zeroed
  | Err_reading_page int u64
  | Err_corrupted u64 int
  | Err_importing_hash_state int
  | Err_computing_block_hashes int

text \<open>
  Every call that touches a resource or the memoization state is recorded, in program
  order, in the trace of the kernel state.
\<close>

datatype event =
    Ev_read_merkle_tree_page u64 u64 bool
  | Ev_kmap_local_page u64
  | Ev_kmap_local_folio u64 u64
  | Ev_kunmap_local kaddr
  | Ev_put_page u64
  | Ev_PageChecked u64
  | Ev_SetPageChecked u64
  | Ev_test_bit u64
  | Ev_clear_bit u64
  | Ev_set_bit u64
  | Ev_smp_rmb
  | Ev_smp_wmb
  | Ev_fsverity_err errmsg

text \<open>
  The mutable world: the \<open>PG_checked\<close> flag of the cached tree page at each page
  index, the bits of the \<open>hash_block_verified\<close> bitmap, and the trace. The page cache
  holds one page for each index; the eviction of a page, after which a new page with a
  clear flag takes its place, is not a step of this model.
\<close>

record kstate =
  pg_checked :: "u64 \<Rightarrow> bool"
  hbv_bitmap :: "u64 \<Rightarrow> bool"
  trace :: "event list"

text \<open>
  \<open>struct merkle_tree_params\<close>, with \<open>hash_alg->mb_max_msgs\<close> inlined.
  \<open>hashstate\<close> is \<open>None\<close> for the NULL pointer.
\<close>

record merkle_tree_params =
  mb_max_msgs :: int
  hashstate :: "u8 list option"
  digest_size :: u32
  block_size :: u32
  blocks_per_page :: u32
  log_digestsize :: nat
  log_blocksize :: nat
  log_arity :: nat
  log_blocks_per_page :: nat
  num_levels :: nat
  tree_pages :: u64
  level_start :: "u64 list"

text \<open>
  \<open>struct fsverity_info\<close>. The field \<open>hash_block_verified\<close> says whether the bitmap
  pointer is non-NULL; the bits themselves are in the kernel state.
\<close>

record fsverity_info =
  tree_params :: merkle_tree_params
  root_hash :: "u8 list"
  hash_block_verified :: bool

text \<open>
  \<open>struct inode\<close>: the file size, the verity info and the filesystem's
  \<open>read_merkle_tree_page\<close> method, which gives the contents of a tree page or an
  error number.
\<close>

record inode =
  i_size :: u64
  i_verity_info :: fsverity_info
  read_merkle_tree_page :: "u64 \<Rightarrow> int + u8 list"

record fsverity_pending_block =
  pb_data :: view
  pb_pos :: u64
  real_hash :: "u8 list"

record fsverity_verification_context =
  ctx_inode :: inode
  ctx_vi :: fsverity_info
  max_ra_pages :: u64
  num_pending :: nat
  pending_blocks :: "nat \<Rightarrow> fsverity_pending_block"

record folio =
  f_index :: u64
  f_host :: inode
  f_locked :: bool
  f_uptodate :: bool
  f_data :: "u8 list"

datatype blk_status = BLK_STS_OK | BLK_STS_IOERR | BLK_STS_other u8

record bio =
  bi_opf :: u32
  bi_size :: u32
  bi_status :: blk_status
  bi_folios :: "(folio \<times> u64 \<times> u64) list"

text \<open>
  What the file takes from the rest of the kernel and does not define itself: the page
  size, the read-ahead request flag and the synchronous hash interface. The hash
  functions return the kernel's error number (0 for success);
  \<open>crypto_shash_finup\<close> finishes one message from the imported state
  (\<open>None\<close> after \<open>crypto_shash_init\<close>).
\<close>

record kenv =
  PAGE_SHIFT :: nat
  REQ_RAHEAD :: u32
  crypto_shash_import :: "u8 list \<Rightarrow> int"
  crypto_shash_init :: int
  crypto_shash_finup :: "u8 list option \<Rightarrow> u8 list \<Rightarrow> int \<times> u8 list"

section \<open>Primitive operations\<close>

definition log_event :: "event \<Rightarrow> kstate \<Rightarrow> kstate" where
  "log_event e s = s\<lparr>trace := trace s @ [e]\<rparr>"

definition PageChecked :: "page \<Rightarrow> kstate \<Rightarrow> bool \<times> kstate" where
  "PageChecked hpage s =
     (pg_checked s (pg_index hpage), log_event (Ev_PageChecked (pg_index hpage)) s)"

definition SetPageChecked :: "page \<Rightarrow> kstate \<Rightarrow> kstate" where
  "SetPageChecked hpage s =
     log_event (Ev_SetPageChecked (pg_index hpage))
       (s\<lparr>pg_checked := (pg_checked s)(pg_index hpage := True)\<rparr>)"

definition test_bit :: "u64 \<Rightarrow> kstate \<Rightarrow> bool \<times> kstate" where
  "test_bit nr s = (hbv_bitmap s nr, log_event (Ev_test_bit nr) s)"

definition clear_bit :: "u64 \<Rightarrow> kstate \<Rightarrow> kstate" where
  "clear_bit nr s = log_event (Ev_clear_bit nr) (s\<lparr>hbv_bitmap := (hbv_bitmap s)(nr := False)\<rparr>)"

definition set_bit :: "u64 \<Rightarrow> kstate \<Rightarrow> kstate" where
  "set_bit nr s = log_event (Ev_set_bit nr) (s\<lparr>hbv_bitmap := (hbv_bitmap s)(nr := True)\<rparr>)"

definition smp_rmb :: "kstate \<Rightarrow> kstate" where
  "smp_rmb s = log_event Ev_smp_rmb s"

definition smp_wmb :: "kstate \<Rightarrow> kstate" where
  "smp_wmb s = log_event Ev_smp_wmb s"

definition fsverity_err :: "errmsg \<Rightarrow> kstate \<Rightarrow> kstate" where
  "fsverity_err m s = log_event (Ev_fsverity_err m) s"

text \<open>
  \<open>round_down(x, y)\<close> of linux/math.h: \<open>x & ~((typeof(x))(y - 1))\<close>, for a power of
  two \<open>y\<close>.
\<close>

definition round_down :: "u64 \<Rightarrow> u32 \<Rightarrow> u64" where
  "round_down x y = x AND NOT (ucast (y - 1))"

section \<open>The memoization layer\<close>

text \<open>
  \<open>is_hash_block_verified\<close>. Without a bitmap, \<open>PG_checked\<close> is the answer. With a
  bitmap, a set \<open>PG_checked\<close> means that the page's bits are initialised and the bit of
  the block is the answer; a clear one makes the function clear the bits of the page's
  blocks, set the flag and answer false.
\<close>

definition is_hash_block_verified ::
  "fsverity_info \<Rightarrow> page \<Rightarrow> u64 \<Rightarrow> kstate \<Rightarrow> bool \<times> kstate" where
  "is_hash_block_verified vi hpage hblock_idx s =
     (if \<not> hash_block_verified vi then PageChecked hpage s
      else
        (case PageChecked hpage s of
           (True, s1) \<Rightarrow> test_bit hblock_idx (smp_rmb s1)
         | (False, s1) \<Rightarrow>
             (let bpp = blocks_per_page (tree_params vi);
                  hblock_idx' = round_down hblock_idx bpp;
                  s2 = fold (\<lambda>i. clear_bit (hblock_idx' + of_nat i)) [0..<unat bpp] s1;
                  s3 = smp_wmb s2;
                  s4 = SetPageChecked hpage s3
              in (False, s4))))"

text \<open>
  Marking a hash block as verified, the \<open>if (vi->hash_block_verified) set_bit(...) else
  SetPageChecked(...)\<close> of the descent in \<open>verify_data_block\<close>.
\<close>

definition mark_verified :: "fsverity_info \<Rightarrow> page \<Rightarrow> u64 \<Rightarrow> kstate \<Rightarrow> kstate" where
  "mark_verified vi hpage hblock_idx s =
     (if hash_block_verified vi then set_bit hblock_idx s else SetPageChecked hpage s)"

section \<open>The hash engine\<close>

text \<open>
  Modelled from the spec: \<open>fsverity_hash_block\<close> is defined in another file of fs/verity.
  It computes one block hash over \<open>block_size\<close> bytes, importing \<open>hashstate\<close> if
  present, else running init, and fails with the error of the underlying primitive.
\<close>

definition shash_prepare :: "kenv \<Rightarrow> merkle_tree_params \<Rightarrow> int" where
  "shash_prepare E params =
     (case hashstate params of
        Some st \<Rightarrow> crypto_shash_import E st
      | None \<Rightarrow> crypto_shash_init E)"

definition fsverity_hash_block :: "kenv \<Rightarrow> merkle_tree_params \<Rightarrow> u8 list \<Rightarrow> int \<times> u8 list" where
  "fsverity_hash_block E params bytes =
     (let err = shash_prepare E params
      in if err \<noteq> 0 then (err, [])
         else crypto_shash_finup E (hashstate params) (take (unat (block_size params)) bytes))"

text \<open>
  Modelled from the spec: \<open>crypto_shash_finup_mb\<close> belongs to the crypto subsystem. It
  computes the hashes of all messages, each of \<open>len\<close> bytes, in one call, with the
  semantics of independent calls, and fails atomically: on an error no output is given.
\<close>

definition crypto_shash_finup_mb ::
  "kenv \<Rightarrow> u8 list option \<Rightarrow> u8 list list \<Rightarrow> nat \<Rightarrow> int \<times> u8 list list" where
  "crypto_shash_finup_mb E st data len =
     (let rs = map (\<lambda>d. crypto_shash_finup E st (take len d)) data
      in case filter (\<lambda>r. fst r \<noteq> 0) rs of
           [] \<Rightarrow> (0, map snd rs)
         | r # _ \<Rightarrow> (fst r, []))"

text \<open>\<open>memchr_inv(p, c, n) != NULL\<close>: one of the first \<open>n\<close> bytes differs from \<open>c\<close>.\<close>

definition memchr_inv :: "u8 list \<Rightarrow> u8 \<Rightarrow> nat \<Rightarrow> bool" where
  "memchr_inv bytes c n = list_ex (\<lambda>b. b \<noteq> c) (take n bytes)"

text \<open>\<open>memcmp(a, b, n) != 0\<close>.\<close>

definition memcmp_ne :: "u8 list \<Rightarrow> u8 list \<Rightarrow> nat \<Rightarrow> bool" where
  "memcmp_ne a b n = (take n a \<noteq> take n b)"

section \<open>Mapping and pinning pages\<close>

definition kmap_local_page :: "page \<Rightarrow> kstate \<Rightarrow> view \<times> kstate" where
  "kmap_local_page pg s =
     (\<lparr>v_addr = Page_addr (pg_index pg) 0, v_bytes = pg_data pg\<rparr>,
      log_event (Ev_kmap_local_page (pg_index pg)) s)"

definition kmap_local_folio :: "folio \<Rightarrow> u64 \<Rightarrow> kstate \<Rightarrow> view \<times> kstate" where
  "kmap_local_folio f offset s =
     (\<lparr>v_addr = Folio_addr (f_index f) offset, v_bytes = drop (unat offset) (f_data f)\<rparr>,
      log_event (Ev_kmap_local_folio (f_index f) offset) s)"

definition kunmap_local :: "view \<Rightarrow> kstate \<Rightarrow> kstate" where
  "kunmap_local v s = log_event (Ev_kunmap_local (v_addr v)) s"

definition put_page :: "page \<Rightarrow> kstate \<Rightarrow> kstate" where
  "put_page pg s = log_event (Ev_put_page (pg_index pg)) s"

text \<open>Pointer arithmetic \<open>addr + off\<close> on a mapped page.\<close>

definition view_add :: "view \<Rightarrow> u32 \<Rightarrow> view" where
  "view_add v off =
     \<lparr>v_addr = (case v_addr v of
                  Page_addr i o' \<Rightarrow> Page_addr i (o' + off)
                | Folio_addr i o' \<Rightarrow> Folio_addr i (o' + ucast off)
                | NULL \<Rightarrow> NULL),
      v_bytes = drop (unat off) (v_bytes v)\<rparr>"

section \<open>The tree walker\<close>

text \<open>An entry of the array \<open>hblocks\<close>: a hash block that the ascent holds.\<close>

record hblock =
  hb_page :: page
  hb_addr :: view
  hb_index :: u64
  hb_hoffset :: u32

text \<open>
  The body of the first loop of \<open>verify_data_block\<close>, for one level: the page could
  not be read (\<open>goto error\<close>); or the hash block is already verified, and the wanted
  hash is copied out of it and the page released (\<open>goto descend\<close>); or the hash block
  is saved in \<open>hblocks[level]\<close> and the loop goes on with \<open>next_hidx\<close>.
\<close>

text \<open>
  The read-ahead argument of \<open>read_merkle_tree_page\<close>:
  \<open>level == 0 ? min(max_ra_pages, params->tree_pages - hpage_idx) : 0\<close>.
\<close>

definition num_ra_pages :: "merkle_tree_params \<Rightarrow> u64 \<Rightarrow> nat \<Rightarrow> u64 \<Rightarrow> u64" where
  "num_ra_pages params max_ra level hpage_idx =
     (if level = 0 then min max_ra (tree_pages params - hpage_idx) else 0)"

datatype level_result =
    Read_failed kstate
  | Already_verified "u8 list" kstate
  | Not_verified hblock u64 kstate

definition ascend_level ::
  "kenv \<Rightarrow> inode \<Rightarrow> fsverity_info \<Rightarrow> u64 \<Rightarrow> nat \<Rightarrow> u64 \<Rightarrow> kstate \<Rightarrow> level_result" where
  "ascend_level E inode vi max_ra level hidx s =
     (let params = tree_params vi; hsize = unat (digest_size params);
          next_hidx = drop_bit (log_arity params) hidx;
          hblock_idx = level_start params ! level + next_hidx;
          hpage_idx = drop_bit (log_blocks_per_page params) hblock_idx;
          hblock_offset_in_page =
            (ucast (push_bit (log_blocksize params) hblock_idx AND mask (PAGE_SHIFT E)) :: u32);
          hoffset =
            (ucast (push_bit (log_digestsize params) hidx AND ucast (block_size params - 1)) :: u32);
          ra = num_ra_pages params max_ra level hpage_idx;
          r = read_merkle_tree_page inode hpage_idx;
          s1 = log_event (Ev_read_merkle_tree_page hpage_idx ra (\<not> isl r)) s
      in case r of
           Inl e \<Rightarrow> Read_failed (fsverity_err (Err_reading_page e hpage_idx) s1)
         | Inr d \<Rightarrow>
             (let hpage = \<lparr>pg_index = hpage_idx, pg_data = d\<rparr>
              in case kmap_local_page hpage s1 of
                   (base, s2) \<Rightarrow>
                     (let haddr = view_add base hblock_offset_in_page
                      in case is_hash_block_verified vi hpage hblock_idx s2 of
                           (True, s3) \<Rightarrow>
                             Already_verified (take hsize (v_bytes (view_add haddr hoffset)))
                               (put_page hpage (kunmap_local haddr s3))
                         | (False, s3) \<Rightarrow>
                             Not_verified
                               \<lparr>hb_page = hpage, hb_addr = haddr, hb_index = hblock_idx,
                                 hb_hoffset = hoffset\<rparr> next_hidx s3)))"

text \<open>
  The ascent, the first loop of \<open>verify_data_block\<close>. \<open>hblocks\<close> is the array of the
  levels below \<open>level\<close>, the highest level first. The result is \<open>None\<close> for
  \<open>goto error\<close>, and otherwise the wanted hash with which the descent starts, together
  with the hash blocks held (their number is the value of \<open>level\<close> at \<open>descend\<close>).
\<close>

function ascend ::
  "kenv \<Rightarrow> inode \<Rightarrow> fsverity_info \<Rightarrow> u64 \<Rightarrow> nat \<Rightarrow> u64 \<Rightarrow> hblock list \<Rightarrow> kstate
     \<Rightarrow> u8 list option \<times> hblock list \<times> kstate" where
  "ascend E inode vi max_ra level hidx hblocks s =
     (if level < num_levels (tree_params vi) then
        (case ascend_level E inode vi max_ra level hidx s of
           Read_failed s' \<Rightarrow> (None, hblocks, s')
         | Already_verified want_hash s' \<Rightarrow> (Some want_hash, hblocks, s')
         | Not_verified hb next_hidx s' \<Rightarrow>
             ascend E inode vi max_ra (level + 1) next_hidx (hb # hblocks) s')
      else (Some (root_hash vi), hblocks, s))"
  by pat_completeness auto
termination
  by (relation "measure (\<lambda>(E, inode, vi, max_ra, level, hidx, hblocks, s).
                   num_levels (tree_params vi) - level)") auto

declare ascend.simps [simp del]

text \<open>The loop at the label \<open>error\<close>: release every hash block still held.\<close>

fun error_exit :: "hblock list \<Rightarrow> kstate \<Rightarrow> kstate" where
  "error_exit [] s = s"
| "error_exit (hb # hblocks) s =
     error_exit hblocks (put_page (hb_page hb) (kunmap_local (hb_addr hb) s))"

text \<open>
  The descent, the second loop of \<open>verify_data_block\<close>, followed by the check of the
  data block's hash. \<open>length hblocks\<close> is the value of \<open>level\<close>.
\<close>

fun descend ::
  "kenv \<Rightarrow> fsverity_info \<Rightarrow> fsverity_pending_block \<Rightarrow> u8 list \<Rightarrow> hblock list \<Rightarrow> kstate
     \<Rightarrow> bool \<times> kstate" where
  "descend E vi dblock want_hash [] s =
     (if memcmp_ne want_hash (real_hash dblock) (unat (digest_size (tree_params vi)))
      then (False, error_exit [] (fsverity_err (Err_corrupted (pb_pos dblock) (- 1)) s))
      else (True, s))"
| "descend E vi dblock want_hash (hb # hblocks) s =
     (let params = tree_params vi; hsize = unat (digest_size params)
      in case fsverity_hash_block E params (v_bytes (hb_addr hb)) of
           (err, real) \<Rightarrow>
             if err \<noteq> 0 then (False, error_exit (hb # hblocks) s)
             else if memcmp_ne want_hash real hsize
             then (False, error_exit (hb # hblocks)
                     (fsverity_err (Err_corrupted (pb_pos dblock) (int (length hblocks))) s))
             else
               (let s1 = mark_verified vi (hb_page hb) (hb_index hb) s;
                    want_hash' = take hsize (v_bytes (view_add (hb_addr hb) (hb_hoffset hb)));
                    s2 = put_page (hb_page hb) (kunmap_local (hb_addr hb) s1)
                in descend E vi dblock want_hash' hblocks s2))"

definition verify_data_block ::
  "kenv \<Rightarrow> inode \<Rightarrow> fsverity_info \<Rightarrow> fsverity_pending_block \<Rightarrow> u64 \<Rightarrow> kstate \<Rightarrow> bool \<times> kstate" where
  "verify_data_block E inode vi dblock max_ra s =
     (let data_pos = pb_pos dblock;
          params = tree_params vi;
          hidx = drop_bit (log_blocksize params) data_pos
      in if data_pos \<ge> i_size inode then
           (if memchr_inv (v_bytes (pb_data dblock)) 0 (unat (block_size params))
            then (False, fsverity_err Err_past_EOF_not_zeroed s)
            else (True, s))
         else
           (case ascend E inode vi max_ra 0 hidx [] s of
              (None, hblocks, s1) \<Rightarrow> (False, error_exit hblocks s1)
            | (Some want_hash, hblocks, s1) \<Rightarrow> descend E vi dblock want_hash hblocks s1))"

section \<open>The batching verification context\<close>

text \<open>
  A slot of \<open>pending_blocks\<close> that was never written. The context is a local variable
  whose array is not initialised; no slot is read before it is written.
\<close>

definition uninit_pending_block :: fsverity_pending_block where
  "uninit_pending_block = \<lparr>pb_data = null_view, pb_pos = 0, real_hash = []\<rparr>"

definition fsverity_init_verification_context ::
  "inode \<Rightarrow> u64 \<Rightarrow> fsverity_verification_context" where
  "fsverity_init_verification_context inode max_ra =
     \<lparr>ctx_inode = inode, ctx_vi = i_verity_info inode, max_ra_pages = max_ra,
      num_pending = 0, pending_blocks = (\<lambda>_. uninit_pending_block)\<rparr>"

text \<open>
  The loop of \<open>fsverity_clear_pending_blocks\<close>, \<open>i\<close> running from
  \<open>num_pending - 1\<close> down to 0: the first argument is \<open>i + 1\<close>.
\<close>

fun clear_loop ::
  "nat \<Rightarrow> fsverity_verification_context \<Rightarrow> kstate \<Rightarrow> fsverity_verification_context \<times> kstate" where
  "clear_loop 0 ctx s = (ctx, s)"
| "clear_loop (Suc i) ctx s =
     clear_loop i
       (ctx\<lparr>pending_blocks := (pending_blocks ctx)(i := (pending_blocks ctx i)\<lparr>pb_data := null_view\<rparr>)\<rparr>)
       (kunmap_local (pb_data (pending_blocks ctx i)) s)"

definition fsverity_clear_pending_blocks ::
  "fsverity_verification_context \<Rightarrow> kstate \<Rightarrow> fsverity_verification_context \<times> kstate" where
  "fsverity_clear_pending_blocks ctx s =
     (case clear_loop (num_pending ctx) ctx s of
        (ctx', s') \<Rightarrow> (ctx'\<lparr>num_pending := 0\<rparr>, s'))"

text \<open>
  The last loop of \<open>fsverity_verify_pending_blocks\<close>: walk the pending blocks in the
  order of their indices and stop at the first one that fails.
\<close>

fun verify_each ::
  "kenv \<Rightarrow> fsverity_verification_context \<Rightarrow> nat list \<Rightarrow> kstate \<Rightarrow> bool \<times> kstate" where
  "verify_each E ctx [] s = (True, s)"
| "verify_each E ctx (i # rest) s =
     (case verify_data_block E (ctx_inode ctx) (ctx_vi ctx) (pending_blocks ctx i)
             (max_ra_pages ctx) s of
        (False, s') \<Rightarrow> (False, s')
      | (True, s') \<Rightarrow> verify_each E ctx rest s')"

text \<open>
  The multibuffer hash writes its results through the pointers \<open>real_hashes[i]\<close>, into
  the slots \<open>real_hash\<close> of the first \<open>num_pending\<close> pending blocks.
\<close>

definition store_real_hashes ::
  "fsverity_verification_context \<Rightarrow> u8 list list \<Rightarrow> fsverity_verification_context" where
  "store_real_hashes ctx real_hashes =
     ctx\<lparr>pending_blocks :=
           (\<lambda>i. if i < num_pending ctx
                then (pending_blocks ctx i)\<lparr>real_hash := real_hashes ! i\<rparr>
                else pending_blocks ctx i)\<rparr>"

text \<open>
  \<open>fsverity_verify_pending_blocks\<close>, the flush. When the multibuffer hash fails, the
  slots \<open>real_hash\<close> hold nothing that is used again; the model leaves them as they were.
\<close>

definition fsverity_verify_pending_blocks ::
  "kenv \<Rightarrow> fsverity_verification_context \<Rightarrow> kstate
     \<Rightarrow> bool \<times> fsverity_verification_context \<times> kstate" where
  "fsverity_verify_pending_blocks E ctx s =
     (let vi = ctx_vi ctx; params = tree_params vi; n = num_pending ctx
      in if n = 0 then (True, ctx, s)
         else
           (let data = map (\<lambda>i. v_bytes (pb_data (pending_blocks ctx i))) [0..<n];
                err = shash_prepare E params
            in if err \<noteq> 0 then (False, ctx, fsverity_err (Err_importing_hash_state err) s)
               else
                 (case crypto_shash_finup_mb E (hashstate params) data (unat (block_size params)) of
                    (err, real_hashes) \<Rightarrow>
                      if err \<noteq> 0
                      then (False, ctx, fsverity_err (Err_computing_block_hashes err) s)
                      else
                        (let ctx1 = store_real_hashes ctx real_hashes
                         in case verify_each E ctx1 [0..<n] s of
                              (False, s') \<Rightarrow> (False, ctx1, s')
                            | (True, s') \<Rightarrow>
                                (case fsverity_clear_pending_blocks ctx1 s' of
                                   (ctx2, s'') \<Rightarrow> (True, ctx2, s''))))))"

text \<open>\<open>IS_ALIGNED(x, a)\<close> of linux/align.h: \<open>(x & ((typeof(x))a - 1)) == 0\<close>.\<close>

definition IS_ALIGNED :: "u64 \<Rightarrow> u32 \<Rightarrow> bool" where
  "IS_ALIGNED x a = (x AND (ucast a - 1) = 0)"

text \<open>
  The \<open>do ... while (len)\<close> loop of \<open>fsverity_add_data_blocks\<close>. The counter \<open>len\<close>
  wraps around, so the loop is a partial function: \<open>None\<close> stands for a loop that does
  not end.
\<close>

partial_function (option) add_loop ::
  "kenv \<Rightarrow> fsverity_verification_context \<Rightarrow> folio \<Rightarrow> u64 \<Rightarrow> u64 \<Rightarrow> u64 \<Rightarrow> kstate
     \<Rightarrow> (bool \<times> fsverity_verification_context \<times> kstate) option" where
  "add_loop E ctx data_folio pos len offset s =
     (let params = tree_params (ctx_vi ctx);
          n = num_pending ctx;
          m = kmap_local_folio data_folio offset s;
          ctx1 = ctx\<lparr>pending_blocks :=
                   (pending_blocks ctx)(n := (pending_blocks ctx n)\<lparr>pb_data := fst m, pb_pos := pos + offset\<rparr>),
                   num_pending := n + 1\<rparr>;
          r = (if int (n + 1) = mb_max_msgs params
               then fsverity_verify_pending_blocks E ctx1 (snd m)
               else (True, ctx1, snd m));
          offset' = offset + ucast (block_size params);
          len' = len - ucast (block_size params)
      in if \<not> fst r then Some r
         else if len' \<noteq> 0 then add_loop E (fst (snd r)) data_folio pos len' offset' (snd (snd r))
         else Some r)"

declare add_loop.simps [code]

definition fsverity_add_data_blocks ::
  "kenv \<Rightarrow> fsverity_verification_context \<Rightarrow> folio \<Rightarrow> u64 \<Rightarrow> u64 \<Rightarrow> kstate
     \<Rightarrow> (bool \<times> fsverity_verification_context \<times> kstate) option" where
  "fsverity_add_data_blocks E ctx data_folio len offset s =
     (let params = tree_params (ctx_vi ctx);
          pos = push_bit (PAGE_SHIFT E) (f_index data_folio)
      in if len = 0 \<or> \<not> IS_ALIGNED (len OR offset) (block_size params) then Some (False, ctx, s)
         else if \<not> f_locked data_folio \<or> f_uptodate data_folio then Some (False, ctx, s)
         else add_loop E ctx data_folio pos len offset s)"

section \<open>The entry points\<close>

definition fsverity_verify_blocks ::
  "kenv \<Rightarrow> folio \<Rightarrow> u64 \<Rightarrow> u64 \<Rightarrow> kstate \<Rightarrow> (bool \<times> kstate) option" where
  "fsverity_verify_blocks E fol len offset s =
     (let ctx = fsverity_init_verification_context (f_host fol) 0
      in case fsverity_add_data_blocks E ctx fol len offset s of
           None \<Rightarrow> None
         | Some (False, ctx1, s1) \<Rightarrow> Some (False, snd (fsverity_clear_pending_blocks ctx1 s1))
         | Some (True, ctx1, s1) \<Rightarrow>
             (case fsverity_verify_pending_blocks E ctx1 s1 of
                (True, ctx2, s2) \<Rightarrow> Some (True, s2)
              | (False, ctx2, s2) \<Rightarrow> Some (False, snd (fsverity_clear_pending_blocks ctx2 s2))))"

text \<open>The loop \<open>bio_for_each_folio_all\<close> of \<open>fsverity_verify_bio\<close>.\<close>

fun add_folios ::
  "kenv \<Rightarrow> fsverity_verification_context \<Rightarrow> (folio \<times> u64 \<times> u64) list \<Rightarrow> kstate
     \<Rightarrow> (bool \<times> fsverity_verification_context \<times> kstate) option" where
  "add_folios E ctx [] s = Some (True, ctx, s)"
| "add_folios E ctx ((fol, len, offset) # rest) s =
     (case fsverity_add_data_blocks E ctx fol len offset s of
        None \<Rightarrow> None
      | Some (False, ctx1, s1) \<Rightarrow> Some (False, ctx1, s1)
      | Some (True, ctx1, s1) \<Rightarrow> add_folios E ctx1 rest s1)"

text \<open>
  \<open>fsverity_verify_bio\<close>. The inode is the host of the first folio; a bio without a
  folio has none, and the function is not defined on it. \<open>verify_bio_segments\<close> is the
  part before the \<open>return\<close>: its flag is false where the code jumps to \<open>ioerr\<close>.
\<close>

definition bio_max_ra_pages :: "kenv \<Rightarrow> bio \<Rightarrow> u64" where
  "bio_max_ra_pages E b =
     (if bi_opf b AND REQ_RAHEAD E \<noteq> 0
      then ucast (drop_bit (PAGE_SHIFT E + 2) (bi_size b)) else 0)"

definition verify_bio_segments ::
  "kenv \<Rightarrow> inode \<Rightarrow> bio \<Rightarrow> kstate \<Rightarrow> (bool \<times> fsverity_verification_context \<times> kstate) option" where
  "verify_bio_segments E inode b s =
     (let ctx = fsverity_init_verification_context inode (bio_max_ra_pages E b)
      in case add_folios E ctx (bi_folios b) s of
           None \<Rightarrow> None
         | Some (False, ctx1, s1) \<Rightarrow> Some (False, ctx1, s1)
         | Some (True, ctx1, s1) \<Rightarrow> Some (fsverity_verify_pending_blocks E ctx1 s1))"

definition fsverity_verify_bio :: "kenv \<Rightarrow> bio \<Rightarrow> kstate \<Rightarrow> (bio \<times> kstate) option" where
  "fsverity_verify_bio E b s =
     (case bi_folios b of
        [] \<Rightarrow> None
      | (first_folio, _, _) # _ \<Rightarrow>
          (case verify_bio_segments E (f_host first_folio) b s of
             None \<Rightarrow> None
           | Some (True, ctx1, s1) \<Rightarrow> Some (b, s1)
           | Some (False, ctx1, s1) \<Rightarrow>
               Some (b\<lparr>bi_status := BLK_STS_IOERR\<rparr>,
                     snd (fsverity_clear_pending_blocks ctx1 s1))))"

section \<open>What the specification talks about\<close>

subsection \<open>The path of a data block through the tree\<close>

text \<open>
  The index of the child at each level: the file position shifted by \<open>log_blocksize\<close>
  at level 0, then shifted by \<open>log_arity\<close> once per level.
\<close>

definition child_index :: "merkle_tree_params \<Rightarrow> u64 \<Rightarrow> nat \<Rightarrow> u64" where
  "child_index params pos l =
     ((drop_bit (log_arity params)) ^^ l) (drop_bit (log_blocksize params) pos)"

definition tree_block_index :: "merkle_tree_params \<Rightarrow> u64 \<Rightarrow> nat \<Rightarrow> u64" where
  "tree_block_index params pos l =
     level_start params ! l + drop_bit (log_arity params) (child_index params pos l)"

definition page_index :: "merkle_tree_params \<Rightarrow> u64 \<Rightarrow> nat \<Rightarrow> u64" where
  "page_index params pos l =
     drop_bit (log_blocks_per_page params) (tree_block_index params pos l)"

definition block_offset_in_page :: "kenv \<Rightarrow> merkle_tree_params \<Rightarrow> u64 \<Rightarrow> nat \<Rightarrow> u32" where
  "block_offset_in_page E params pos l =
     ucast (push_bit (log_blocksize params) (tree_block_index params pos l) AND mask (PAGE_SHIFT E))"

definition digest_offset :: "merkle_tree_params \<Rightarrow> u64 \<Rightarrow> nat \<Rightarrow> u32" where
  "digest_offset params pos l =
     ucast (push_bit (log_digestsize params) (child_index params pos l)
            AND ucast (block_size params - 1))"

text \<open>The bytes of the tree from the start of the hash block of a level, if its page can be read.\<close>

definition tree_block :: "kenv \<Rightarrow> inode \<Rightarrow> merkle_tree_params \<Rightarrow> u64 \<Rightarrow> nat \<Rightarrow> u8 list option" where
  "tree_block E inode params pos l =
     (case read_merkle_tree_page inode (page_index params pos l) of
        Inl e \<Rightarrow> None
      | Inr d \<Rightarrow> Some (drop (unat (block_offset_in_page E params pos l)) d))"

text \<open>
  The digest that the tree holds for the child of a level: the root hash above the
  highest level, else the digest stored in the hash block of the level.
\<close>

definition stored_digest :: "kenv \<Rightarrow> inode \<Rightarrow> fsverity_info \<Rightarrow> u64 \<Rightarrow> nat \<Rightarrow> u8 list" where
  "stored_digest E inode vi pos l =
     (if num_levels (tree_params vi) \<le> l then root_hash vi
      else
        (case tree_block E inode (tree_params vi) pos l of
           None \<Rightarrow> []
         | Some blk \<Rightarrow>
             take (unat (digest_size (tree_params vi)))
               (drop (unat (digest_offset (tree_params vi) pos l)) blk)))"

text \<open>Whether \<open>block_size\<close> bytes hash, without an error, to the digest \<open>want\<close>.\<close>

definition hashes_to :: "kenv \<Rightarrow> merkle_tree_params \<Rightarrow> u8 list \<Rightarrow> u8 list \<Rightarrow> bool" where
  "hashes_to E params bytes want =
     (case fsverity_hash_block E params bytes of
        (err, h) \<Rightarrow> err = 0 \<and> \<not> memcmp_ne want h (unat (digest_size params)))"

text \<open>The hash block of a level can be read and hashes to the digest stored for it one level up.\<close>

definition level_ok :: "kenv \<Rightarrow> inode \<Rightarrow> fsverity_info \<Rightarrow> u64 \<Rightarrow> nat \<Rightarrow> bool" where
  "level_ok E inode vi pos l =
     (case tree_block E inode (tree_params vi) pos l of
        None \<Rightarrow> False
      | Some blk \<Rightarrow> hashes_to E (tree_params vi) blk (stored_digest E inode vi pos (Suc l)))"

text \<open>The hash blocks from a level up to the root are consistent with the root hash.\<close>

definition path_ok :: "kenv \<Rightarrow> inode \<Rightarrow> fsverity_info \<Rightarrow> u64 \<Rightarrow> nat \<Rightarrow> bool" where
  "path_ok E inode vi pos l =
     list_all (level_ok E inode vi pos) [l..<num_levels (tree_params vi)]"

text \<open>
  The tree with its root hash authenticates the bytes \<open>body\<close> at the position \<open>pos\<close>: the
  position is inside the file, the whole path is consistent with the root hash, and the
  body hashes to the digest stored for it in the leaf level.
\<close>

definition authenticates :: "kenv \<Rightarrow> inode \<Rightarrow> fsverity_info \<Rightarrow> u64 \<Rightarrow> u8 list \<Rightarrow> bool" where
  "authenticates E inode vi pos body =
     (pos < i_size inode \<and> path_ok E inode vi pos 0 \<and>
      hashes_to E (tree_params vi) body (stored_digest E inode vi pos 0))"

definition all_zero :: "nat \<Rightarrow> u8 list \<Rightarrow> bool" where
  "all_zero n bytes = list_all (\<lambda>b. b = 0) (take n bytes)"

subsection \<open>The memoization state\<close>

text \<open>
  A hash block counts as verified: the flag of its page is set and, with a bitmap, its
  bit is set too.
\<close>

definition memo_marked :: "fsverity_info \<Rightarrow> kstate \<Rightarrow> u64 \<Rightarrow> bool" where
  "memo_marked vi s b =
     (pg_checked s (drop_bit (log_blocks_per_page (tree_params vi)) b) \<and>
      (\<not> hash_block_verified vi \<or> hbv_bitmap s b))"

text \<open>
  The memoization state is sound for a position: every hash block on its path that
  counts as verified is consistent with the root hash.
\<close>

definition memo_sound :: "kenv \<Rightarrow> inode \<Rightarrow> fsverity_info \<Rightarrow> u64 \<Rightarrow> kstate \<Rightarrow> bool" where
  "memo_sound E inode vi pos s =
     list_all (\<lambda>l. \<not> memo_marked vi s (tree_block_index (tree_params vi) pos l) \<or>
                   path_ok E inode vi pos l)
       [0..<num_levels (tree_params vi)]"

definition same_memo :: "kstate \<Rightarrow> kstate \<Rightarrow> bool" where
  "same_memo s t = (pg_checked s = pg_checked t \<and> hbv_bitmap s = hbv_bitmap t)"

text \<open>The description has consistent sizes: the one fact about them that the bitmap needs.\<close>

definition bitmap_params_ok :: "merkle_tree_params \<Rightarrow> bool" where
  "bitmap_params_ok params =
     (log_blocks_per_page params < 32 \<and> blocks_per_page params = 2 ^ log_blocks_per_page params)"

subsection \<open>Resources read off the trace\<close>

text \<open>
  How many references to the tree page \<open>p\<close> are held, how often it is mapped, and how
  often the data at an offset of a folio is mapped: acquisitions minus releases.
\<close>

fun pin_delta :: "u64 \<Rightarrow> event \<Rightarrow> int" where
  "pin_delta p (Ev_read_merkle_tree_page i ra ok) = (if ok \<and> i = p then 1 else 0)"
| "pin_delta p (Ev_put_page i) = (if i = p then - 1 else 0)"
| "pin_delta p e = 0"

fun unmap_page_delta :: "u64 \<Rightarrow> kaddr \<Rightarrow> int" where
  "unmap_page_delta p (Page_addr i off) = (if i = p then 1 else 0)"
| "unmap_page_delta p a = 0"

fun page_map_delta :: "u64 \<Rightarrow> event \<Rightarrow> int" where
  "page_map_delta p (Ev_kmap_local_page i) = (if i = p then 1 else 0)"
| "page_map_delta p (Ev_kunmap_local a) = - unmap_page_delta p a"
| "page_map_delta p e = 0"

fun unmap_data_delta :: "u64 \<times> u64 \<Rightarrow> kaddr \<Rightarrow> int" where
  "unmap_data_delta k (Folio_addr i off) = (if (i, off) = k then 1 else 0)"
| "unmap_data_delta k a = 0"

fun data_map_delta :: "u64 \<times> u64 \<Rightarrow> event \<Rightarrow> int" where
  "data_map_delta k (Ev_kmap_local_folio i off) = (if (i, off) = k then 1 else 0)"
| "data_map_delta k (Ev_kunmap_local a) = - unmap_data_delta k a"
| "data_map_delta k e = 0"

definition pinned :: "event list \<Rightarrow> u64 \<Rightarrow> int" where
  "pinned tr p = sum_list (map (pin_delta p) tr)"

definition page_maps :: "event list \<Rightarrow> u64 \<Rightarrow> int" where
  "page_maps tr p = sum_list (map (page_map_delta p) tr)"

definition data_maps :: "event list \<Rightarrow> u64 \<times> u64 \<Rightarrow> int" where
  "data_maps tr k = sum_list (map (data_map_delta k) tr)"

definition same_resources :: "kstate \<Rightarrow> kstate \<Rightarrow> bool" where
  "same_resources s s' =
     (pinned (trace s') = pinned (trace s) \<and> page_maps (trace s') = page_maps (trace s) \<and>
      data_maps (trace s') = data_maps (trace s))"

subsection \<open>Single-block verifications\<close>

text \<open>The context with the pending block \<open>i\<close> alone, in slot 0.\<close>

definition single_pending ::
  "fsverity_verification_context \<Rightarrow> nat \<Rightarrow> fsverity_verification_context" where
  "single_pending ctx i =
     ctx\<lparr>num_pending := 1, pending_blocks := (pending_blocks ctx)(0 := pending_blocks ctx i)\<rparr>"

text \<open>
  The pending blocks of a context verified separately: each in turn is flushed alone,
  in the order given. The result is success if every block was accepted.
\<close>

fun verify_separately ::
  "kenv \<Rightarrow> fsverity_verification_context \<Rightarrow> nat list \<Rightarrow> kstate \<Rightarrow> bool \<times> kstate" where
  "verify_separately E ctx [] s = (True, s)"
| "verify_separately E ctx (i # rest) s =
     (case fsverity_verify_pending_blocks E (single_pending ctx i) s of
        (ok, ctx', s') \<Rightarrow>
          (case verify_separately E ctx rest s' of
             (ok', s'') \<Rightarrow> (ok \<and> ok', s'')))"

text \<open>
  The same, up to the first block that is rejected (what \<open>fsverity_add_data_blocks\<close>
  does when \<open>mb_max_msgs\<close> is 1).
\<close>

fun verify_separately_until_reject ::
  "kenv \<Rightarrow> fsverity_verification_context \<Rightarrow> nat list \<Rightarrow> kstate \<Rightarrow> bool \<times> kstate" where
  "verify_separately_until_reject E ctx [] s = (True, s)"
| "verify_separately_until_reject E ctx (i # rest) s =
     (case fsverity_verify_pending_blocks E (single_pending ctx i) s of
        (False, ctx', s') \<Rightarrow> (False, s')
      | (True, ctx', s') \<Rightarrow> verify_separately_until_reject E ctx rest s')"

text \<open>The multibuffer hash of the pending blocks of a context does not fail.\<close>

definition batch_hash_ok :: "kenv \<Rightarrow> fsverity_verification_context \<Rightarrow> bool" where
  "batch_hash_ok E ctx =
     (fst (crypto_shash_finup_mb E (hashstate (tree_params (ctx_vi ctx)))
             (map (\<lambda>i. v_bytes (pb_data (pending_blocks ctx i))) [0..<num_pending ctx])
             (unat (block_size (tree_params (ctx_vi ctx))))) = 0)"

subsection \<open>The walks of a flush\<close>



subsection \<open>The marks of a walk\<close>

text \<open>
  The calls of the mark that the descent makes, first to last, each with the hash block
  marked and the state in which the call is made. The function follows the second loop
  of \<open>verify_data_block\<close>: the loop ends without a mark at the first hash block whose
  hash fails or differs from the wanted one, and otherwise marks the block, releases it
  and goes on with the next level below.
\<close>

fun mark_calls ::
  "kenv \<Rightarrow> fsverity_info \<Rightarrow> u8 list \<Rightarrow> hblock list \<Rightarrow> kstate \<Rightarrow> (hblock \<times> kstate) list" where
  "mark_calls E vi want_hash [] s = []"
| "mark_calls E vi want_hash (hb # hblocks) s =
     (let params = tree_params vi; hsize = unat (digest_size params)
      in case fsverity_hash_block E params (v_bytes (hb_addr hb)) of
           (err, real) \<Rightarrow>
             if err \<noteq> 0 then []
             else if memcmp_ne want_hash real hsize then []
             else
               (let s1 = mark_verified vi (hb_page hb) (hb_index hb) s;
                    want_hash' = take hsize (v_bytes (view_add (hb_addr hb) (hb_hoffset hb)));
                    s2 = put_page (hb_page hb) (kunmap_local (hb_addr hb) s1)
                in (hb, s) # mark_calls E vi want_hash' hblocks s2))"

text \<open>
  The calls of the mark in one run of \<open>verify_data_block\<close>: none past the end of the
  file or when the ascent fails, else those of the descent that follows the ascent.
\<close>

definition walk_mark_calls ::
  "kenv \<Rightarrow> inode \<Rightarrow> fsverity_info \<Rightarrow> fsverity_pending_block \<Rightarrow> u64 \<Rightarrow> kstate
     \<Rightarrow> (hblock \<times> kstate) list" where
  "walk_mark_calls E inode vi dblock max_ra s =
     (let data_pos = pb_pos dblock;
          params = tree_params vi;
          hidx = drop_bit (log_blocksize params) data_pos
      in if data_pos \<ge> i_size inode then []
         else
           (case ascend E inode vi max_ra 0 hidx [] s of
              (None, hblocks, s1) \<Rightarrow> []
            | (Some want_hash, hblocks, s1) \<Rightarrow> mark_calls E vi want_hash hblocks s1))"

text \<open>The block indices of the \<open>set_bit\<close> events of a trace, in their order.\<close>

fun set_bit_events :: "event list \<Rightarrow> u64 list" where
  "set_bit_events [] = []"
| "set_bit_events (Ev_set_bit b # evs) = b # set_bit_events evs"
| "set_bit_events (e # evs) = set_bit_events evs"

subsection \<open>Auxiliary notions of the proofs\<close>

text \<open>
  The entry of \<open>hblocks\<close> that the ascent builds for a level of the path of a position,
  and the array it holds after \<open>k\<close> levels.
\<close>

definition path_hb :: "kenv \<Rightarrow> inode \<Rightarrow> merkle_tree_params \<Rightarrow> u64 \<Rightarrow> nat \<Rightarrow> hblock" where
  "path_hb E inode params pos l =
     (let d = (case read_merkle_tree_page inode (page_index params pos l) of
                 Inl e \<Rightarrow> [] | Inr d \<Rightarrow> d);
          hpage = \<lparr>pg_index = page_index params pos l, pg_data = d\<rparr>
      in \<lparr>hb_page = hpage,
          hb_addr = view_add \<lparr>v_addr = Page_addr (page_index params pos l) 0, v_bytes = d\<rparr>
                      (block_offset_in_page E params pos l),
          hb_index = tree_block_index params pos l,
          hb_hoffset = digest_offset params pos l\<rparr>)"

definition path_hbs :: "kenv \<Rightarrow> inode \<Rightarrow> merkle_tree_params \<Rightarrow> u64 \<Rightarrow> nat \<Rightarrow> hblock list" where
  "path_hbs E inode params pos k = map (path_hb E inode params pos) (rev [0..<k])"

text \<open>
  The checks of the descent as a pure function: the hash wanted of the data block, if
  every hash block held hashes to the hash wanted of it.
\<close>

fun chain_want :: "kenv \<Rightarrow> fsverity_info \<Rightarrow> u8 list \<Rightarrow> hblock list \<Rightarrow> u8 list option" where
  "chain_want E vi want [] = Some want"
| "chain_want E vi want (hb # hblocks) =
     (if hashes_to E (tree_params vi) (v_bytes (hb_addr hb)) want
      then chain_want E vi
             (take (unat (digest_size (tree_params vi)))
                (v_bytes (view_add (hb_addr hb) (hb_hoffset hb)))) hblocks
      else None)"

text \<open>The references and mappings that an array \<open>hblocks\<close> and a context hold.\<close>

definition held_pins :: "hblock list \<Rightarrow> u64 \<Rightarrow> int" where
  "held_pins hblocks p =
     sum_list (map (\<lambda>hb. if pg_index (hb_page hb) = p then 1 else 0) hblocks)"

definition held_maps :: "hblock list \<Rightarrow> u64 \<Rightarrow> int" where
  "held_maps hblocks p =
     sum_list (map (\<lambda>hb. unmap_page_delta p (v_addr (hb_addr hb))) hblocks)"

definition pending_maps :: "fsverity_verification_context \<Rightarrow> u64 \<times> u64 \<Rightarrow> int" where
  "pending_maps ctx k =
     sum_list (map (\<lambda>i. unmap_data_delta k (v_addr (pb_data (pending_blocks ctx i))))
                 [0..<num_pending ctx])"

text \<open>
  How a query of the memoization layer may change it: no block comes to count as
  verified, no flag and no other bit is lost, and without a bitmap nothing changes.
\<close>

definition memo_after :: "fsverity_info \<Rightarrow> kstate \<Rightarrow> kstate \<Rightarrow> bool" where
  "memo_after vi s s' =
     ((\<forall>b. memo_marked vi s' b \<longrightarrow> memo_marked vi s b) \<and>
      (\<forall>p. pg_checked s p \<longrightarrow> pg_checked s' p) \<and>
      (\<forall>b. hbv_bitmap s' b \<longrightarrow> hbv_bitmap s b) \<and>
      (\<not> hash_block_verified vi \<longrightarrow> same_memo s s'))"

text \<open>The block size is the power of two that its logarithm says.\<close>

definition block_params_ok :: "merkle_tree_params \<Rightarrow> bool" where
  "block_params_ok params =
     (log_blocksize params < 32 \<and> block_size params = 2 ^ log_blocksize params)"

text \<open>
  The data views of a context are mapped and nothing else is held: every pending block
  points into a folio, and, relative to the trace \<open>base\<close> from before the context was
  made, the trace holds no reference to a tree page, maps no tree page and maps
  exactly the data of the pending blocks.
\<close>

definition pending_ok :: "fsverity_verification_context \<Rightarrow> bool" where
  "pending_ok ctx =
     (\<forall>i<num_pending ctx. \<exists>fi off. v_addr (pb_data (pending_blocks ctx i)) = Folio_addr fi off)"

definition holds_views :: "event list \<Rightarrow> fsverity_verification_context \<Rightarrow> kstate \<Rightarrow> bool" where
  "holds_views base ctx s =
     (pending_ok ctx \<and> pinned (trace s) = pinned base \<and> page_maps (trace s) = page_maps base \<and>
      (\<forall>k. data_maps (trace s) k = data_maps base k + pending_maps ctx k))"

text \<open>
  The memoization state is sound for every position in the file. It stays so under
  walks when the levels of the tree occupy distinct block indices and, without a bitmap,
  a page holds one block.
\<close>

definition memo_sound_all :: "kenv \<Rightarrow> inode \<Rightarrow> fsverity_info \<Rightarrow> kstate \<Rightarrow> bool" where
  "memo_sound_all E inode vi s = (\<forall>pos. pos < i_size inode \<longrightarrow> memo_sound E inode vi pos s)"

definition levels_distinct :: "inode \<Rightarrow> merkle_tree_params \<Rightarrow> bool" where
  "levels_distinct inode params =
     (\<forall>pos pos' l j.
        pos < i_size inode \<and> pos' < i_size inode \<and> l < num_levels params \<and> j < num_levels params \<and>
        tree_block_index params pos l = tree_block_index params pos' j \<longrightarrow> l = j)"

definition memo_params_ok :: "fsverity_info \<Rightarrow> bool" where
  "memo_params_ok vi =
     (if hash_block_verified vi then bitmap_params_ok (tree_params vi)
      else log_blocks_per_page (tree_params vi) = 0)"

section \<open>A small file for the examples\<close>

text \<open>
  Blocks of 4 bytes, digests of 1 byte, a file of 8 bytes: two data blocks and one leaf
  hash block, whose hash is the root hash. The toy hash adds the bytes to 1 and fails
  on a message that starts with \<open>0xff\<close>.
\<close>

definition ex_finup :: "u8 list option \<Rightarrow> u8 list \<Rightarrow> int \<times> u8 list" where
  "ex_finup st msg = (if take 1 msg = [255] then (- 5, []) else (0, [foldr (+) msg 1]))"

definition ex_env :: "nat \<Rightarrow> kenv" where
  "ex_env page_shift =
     \<lparr>PAGE_SHIFT = page_shift, REQ_RAHEAD = 524288, crypto_shash_import = (\<lambda>st. 0),
      crypto_shash_init = 0, crypto_shash_finup = ex_finup\<rparr>"

definition ex_params :: "nat \<Rightarrow> merkle_tree_params" where
  "ex_params lbpp =
     \<lparr>mb_max_msgs = 2, hashstate = None, digest_size = 1, block_size = 4,
      blocks_per_page = 2 ^ lbpp, log_digestsize = 0, log_blocksize = 2, log_arity = 2,
      log_blocks_per_page = lbpp, num_levels = 1, tree_pages = 1, level_start = [0]\<rparr>"

text \<open>Without a bitmap (a page is a block) and with one (a page is two blocks).\<close>

definition ex_vi :: fsverity_info where
  "ex_vi = \<lparr>tree_params = ex_params 0, root_hash = [15], hash_block_verified = False\<rparr>"

definition ex_vi_bitmap :: fsverity_info where
  "ex_vi_bitmap = \<lparr>tree_params = ex_params 1, root_hash = [15], hash_block_verified = True\<rparr>"

definition ex_tree :: "u64 \<Rightarrow> int + u8 list" where
  "ex_tree i = (if i = 0 then Inr [5, 9, 0, 0, 0, 0, 0, 0] else Inl (- 5))"

definition ex_inode :: inode where
  "ex_inode = \<lparr>i_size = 8, i_verity_info = ex_vi, read_merkle_tree_page = ex_tree\<rparr>"

definition ex_inode_bitmap :: inode where
  "ex_inode_bitmap = \<lparr>i_size = 8, i_verity_info = ex_vi_bitmap, read_merkle_tree_page = ex_tree\<rparr>"

definition ex_state :: kstate where
  "ex_state = \<lparr>pg_checked = (\<lambda>p. False), hbv_bitmap = (\<lambda>b. False), trace = []\<rparr>"

definition ex_page :: page where
  "ex_page = \<lparr>pg_index = 0, pg_data = [5, 9, 0, 0, 0, 0, 0, 0]\<rparr>"

definition ex_block :: "u64 \<Rightarrow> u8 list \<Rightarrow> u8 list \<Rightarrow> fsverity_pending_block" where
  "ex_block pos body h =
     \<lparr>pb_data = \<lparr>v_addr = Folio_addr 0 pos, v_bytes = body\<rparr>, pb_pos = pos, real_hash = h\<rparr>"

definition ex_folio :: "inode \<Rightarrow> u8 list \<Rightarrow> folio" where
  "ex_folio inode bytes =
     \<lparr>f_index = 0, f_host = inode, f_locked = True, f_uptodate = False, f_data = bytes\<rparr>"

definition ex_ctx :: "inode \<Rightarrow> fsverity_pending_block list \<Rightarrow> fsverity_verification_context" where
  "ex_ctx inode blocks =
     \<lparr>ctx_inode = inode, ctx_vi = i_verity_info inode, max_ra_pages = 0,
      num_pending = length blocks,
      pending_blocks = (\<lambda>i. if i < length blocks then blocks ! i else uninit_pending_block)\<rparr>"

definition ex_bio :: "inode \<Rightarrow> u8 list \<Rightarrow> bio" where
  "ex_bio inode bytes =
     \<lparr>bi_opf = 0, bi_size = 8, bi_status = BLK_STS_OK,
      bi_folios = [(ex_folio inode bytes, 8, 0)]\<rparr>"

section \<open>Proofs\<close>

subsection \<open>Word arithmetic of the bitmap\<close>

lemma unat_pow2_u32:
  assumes "k < 32"
  shows "unat (2 ^ k :: u32) = 2 ^ k"
proof -
  have "(2 ^ k :: u32) = of_nat (2 ^ k)" by simp
  then have "unat (2 ^ k :: u32) = (2 ^ k) mod 2 ^ 32"
    by (simp only: unat_of_nat) simp
  moreover have "(2::nat) ^ k < 2 ^ 32" using assms by (rule power_strict_increasing) simp
  ultimately show ?thesis by simp
qed

lemma round_down_pow2:
  assumes "k < 32"
  shows "round_down x (2 ^ k) = push_bit k (drop_bit k x)"
proof -
  have "(2 ^ k - 1 :: u32) = mask k" by (simp add: mask_eq_exp_minus_1)
  moreover have "(ucast (mask k :: u32) :: u64) = mask k"
    using assms by (simp add: ucast_mask_eq) 
  moreover have "x AND NOT (mask k) = push_bit k (drop_bit k x)"
    by (rule bit_eqI) (auto simp: bit_simps)
  ultimately show ?thesis by (simp add: round_down_def)
qed

lemma low_bits_drop:
  fixes x z :: u64
  shows "drop_bit k (push_bit k (drop_bit k x) + take_bit k z) = drop_bit k x"
proof -
  have "push_bit k (drop_bit k x) + take_bit k z = push_bit k (drop_bit k x) OR take_bit k z"
    by (rule disjunctive_add_eq_or, rule bit_eqI) (auto simp: bit_simps)
  moreover have "drop_bit k (push_bit k (drop_bit k x) OR take_bit k z) = drop_bit k x"
    by (rule bit_eqI) (auto simp: bit_simps dest: bit_imp_le_length)
  ultimately show ?thesis by simp
qed

lemma same_page_iff:
  fixes b x :: u64
  shows "drop_bit k b = drop_bit k x \<longleftrightarrow> (\<exists>i < 2 ^ k. b = push_bit k (drop_bit k x) + of_nat i)"
proof
  assume eq: "drop_bit k b = drop_bit k x"
  have "b = push_bit k (drop_bit k b) + take_bit k b" by (simp add: bits_ident)
  then have "b = push_bit k (drop_bit k x) + of_nat (unat (take_bit k b))"
    using eq by simp
  moreover have "unat (take_bit k b) < 2 ^ k"
    by (simp add: unsigned_take_bit_eq)
  ultimately show "\<exists>i < 2 ^ k. b = push_bit k (drop_bit k x) + of_nat i" by blast
next
  assume "\<exists>i < 2 ^ k. b = push_bit k (drop_bit k x) + of_nat i"
  then obtain i :: nat where i: "i < 2 ^ k" and b: "b = push_bit k (drop_bit k x) + of_nat i"
    by blast
  have "(of_nat i :: u64) = take_bit k (of_nat i)"
    using i by (simp add: take_bit_of_nat take_bit_nat_eq_self)
  with b low_bits_drop [of k x "of_nat i"] show "drop_bit k b = drop_bit k x" by simp
qed

subsection \<open>The loop that clears the bits of a page\<close>

lemma fold_clear_bit_bitmap:
  "hbv_bitmap (fold (\<lambda>i. clear_bit (base + of_nat i)) [0..<m] s) b =
     (hbv_bitmap s b \<and> \<not> (\<exists>i<m. b = base + of_nat i))"
  by (induction m) (auto simp: clear_bit_def log_event_def less_Suc_eq)

lemma fold_clear_bit_flags:
  "pg_checked (fold (\<lambda>i. clear_bit (base + of_nat i)) [0..<m] s) = pg_checked s"
  by (induction m) (auto simp: clear_bit_def log_event_def)

lemma fold_clear_bit_trace:
  "trace (fold (\<lambda>i. clear_bit (base + of_nat i)) [0..<m] s) =
     trace s @ map (\<lambda>i. Ev_clear_bit (base + of_nat i)) [0..<m]"
  by (induction m) (auto simp: clear_bit_def log_event_def)

lemma fold_clear_bit_eq:
  "fold (\<lambda>i. clear_bit (base + of_nat i)) [0..<m] s =
     s\<lparr>hbv_bitmap := (\<lambda>b. hbv_bitmap s b \<and> \<not> (\<exists>i<m. b = base + of_nat i)),
       trace := trace s @ map (\<lambda>i. Ev_clear_bit (base + of_nat i)) [0..<m]\<rparr>"
  by (rule kstate.equality)
     (simp_all add: fold_clear_bit_bitmap fold_clear_bit_flags fold_clear_bit_trace fun_eq_iff)

subsection \<open>Primitive operations keep the memoization fields\<close>

lemma log_event_fields [simp]:
  "pg_checked (log_event e s) = pg_checked s"
  "hbv_bitmap (log_event e s) = hbv_bitmap s"
  "trace (log_event e s) = trace s @ [e]"
  by (simp_all add: log_event_def)

lemma put_page_fields [simp]:
  "pg_checked (put_page pg s) = pg_checked s"
  "hbv_bitmap (put_page pg s) = hbv_bitmap s"
  "trace (put_page pg s) = trace s @ [Ev_put_page (pg_index pg)]"
  by (simp_all add: put_page_def)

lemma kunmap_local_fields [simp]:
  "pg_checked (kunmap_local v s) = pg_checked s"
  "hbv_bitmap (kunmap_local v s) = hbv_bitmap s"
  "trace (kunmap_local v s) = trace s @ [Ev_kunmap_local (v_addr v)]"
  by (simp_all add: kunmap_local_def)

lemma fsverity_err_fields [simp]:
  "pg_checked (fsverity_err m s) = pg_checked s"
  "hbv_bitmap (fsverity_err m s) = hbv_bitmap s"
  "trace (fsverity_err m s) = trace s @ [Ev_fsverity_err m]"
  by (simp_all add: fsverity_err_def)

lemma view_add_fields [simp]:
  "v_bytes (view_add v off) = drop (unat off) (v_bytes v)"
  "v_addr (view_add \<lparr>v_addr = Page_addr i o', v_bytes = d\<rparr> off) = Page_addr i (o' + off)"
  by (simp_all add: view_add_def)

lemma same_memo_refl [simp]: "same_memo s s"
  by (simp add: same_memo_def)

lemma same_memo_sym: "same_memo s t \<Longrightarrow> same_memo t s"
  by (simp add: same_memo_def)

lemma same_memo_trans: "same_memo s t \<Longrightarrow> same_memo t u \<Longrightarrow> same_memo s u"
  by (simp add: same_memo_def)

lemma same_memo_marked: "same_memo s t \<Longrightarrow> memo_marked vi s b = memo_marked vi t b"
  by (simp add: same_memo_def memo_marked_def)

lemma same_memo_ops [simp]:
  "same_memo s (log_event e t) = same_memo s t"
  "same_memo (log_event e s) t = same_memo s t"
  "same_memo s (put_page pg t) = same_memo s t"
  "same_memo (put_page pg s) t = same_memo s t"
  "same_memo s (kunmap_local v t) = same_memo s t"
  "same_memo (kunmap_local v s) t = same_memo s t"
  "same_memo s (fsverity_err m t) = same_memo s t"
  "same_memo (fsverity_err m s) t = same_memo s t"
  by (simp_all add: same_memo_def)

subsection \<open>Resources and the trace\<close>

lemma pinned_simps [simp]:
  "pinned [] p = 0"
  "pinned (tr @ tr') p = pinned tr p + pinned tr' p"
  "pinned (e # tr) p = pin_delta p e + pinned tr p"
  by (simp_all add: pinned_def)

lemma page_maps_simps [simp]:
  "page_maps [] p = 0"
  "page_maps (tr @ tr') p = page_maps tr p + page_maps tr' p"
  "page_maps (e # tr) p = page_map_delta p e + page_maps tr p"
  by (simp_all add: page_maps_def)

lemma data_maps_simps [simp]:
  "data_maps [] k = 0"
  "data_maps (tr @ tr') k = data_maps tr k + data_maps tr' k"
  "data_maps (e # tr) k = data_map_delta k e + data_maps tr k"
  by (simp_all add: data_maps_def)

lemma clear_events_no_resources [simp]:
  "pinned (map (\<lambda>i. Ev_clear_bit (f i)) xs) p = 0"
  "page_maps (map (\<lambda>i. Ev_clear_bit (f i)) xs) p = 0"
  "data_maps (map (\<lambda>i. Ev_clear_bit (f i)) xs) k = 0"
  by (induction xs) simp_all

lemma same_resources_refl [simp]: "same_resources s s"
  by (simp add: same_resources_def)

lemma same_resources_trans:
  "same_resources s t \<Longrightarrow> same_resources t u \<Longrightarrow> same_resources s u"
  by (simp add: same_resources_def)

lemma held_simps [simp]:
  "held_pins [] p = 0"
  "held_pins (hb # hbs) p = (if pg_index (hb_page hb) = p then 1 else 0) + held_pins hbs p"
  "held_maps [] p = 0"
  "held_maps (hb # hbs) p = unmap_page_delta p (v_addr (hb_addr hb)) + held_maps hbs p"
  by (simp_all add: held_pins_def held_maps_def)

subsection \<open>The query \<open>is_hash_block_verified\<close>\<close>

lemma is_hash_block_verified_flag:
  assumes "\<not> hash_block_verified vi"
  shows "is_hash_block_verified vi hpage B s =
           (pg_checked s (pg_index hpage), log_event (Ev_PageChecked (pg_index hpage)) s)"
  using assms by (simp add: is_hash_block_verified_def PageChecked_def)

lemma is_hash_block_verified_trace:
  "\<exists>evs. trace (snd (is_hash_block_verified vi hpage B s)) = trace s @ evs \<and>
         (\<forall>p. pinned evs p = 0) \<and> (\<forall>p. page_maps evs p = 0) \<and> (\<forall>k. data_maps evs k = 0)"
proof (cases "hash_block_verified vi \<and> \<not> pg_checked s (pg_index hpage)")
  case True
  then show ?thesis
    by (simp add: is_hash_block_verified_def PageChecked_def Let_def smp_wmb_def
        SetPageChecked_def fold_clear_bit_trace)
next
  case False
  then show ?thesis
    by (auto simp: is_hash_block_verified_def PageChecked_def test_bit_def smp_rmb_def)
qed

lemma is_hash_block_verified_resources:
  "same_resources s (snd (is_hash_block_verified vi hpage B s))"
proof -
  obtain evs where "trace (snd (is_hash_block_verified vi hpage B s)) = trace s @ evs"
    and "\<forall>p. pinned evs p = 0" and "\<forall>p. page_maps evs p = 0" and "\<forall>k. data_maps evs k = 0"
    using is_hash_block_verified_trace by blast
  then show ?thesis by (simp add: same_resources_def fun_eq_iff)
qed

lemma is_hash_block_verified_same_memo:
  assumes "same_memo s t"
  shows "fst (is_hash_block_verified vi hpage B s) = fst (is_hash_block_verified vi hpage B t) \<and>
         same_memo (snd (is_hash_block_verified vi hpage B s)) (snd (is_hash_block_verified vi hpage B t))"
proof (cases "pg_checked s (pg_index hpage)")
  case True
  with assms show ?thesis
    by (simp add: is_hash_block_verified_def PageChecked_def test_bit_def smp_rmb_def same_memo_def)
next
  case False
  with assms show ?thesis
    by (simp add: is_hash_block_verified_def PageChecked_def Let_def smp_wmb_def
        SetPageChecked_def same_memo_def fun_eq_iff fold_clear_bit_bitmap fold_clear_bit_flags log_event_def)
qed

lemma is_hash_block_verified_bitmap:
  assumes "hash_block_verified vi"
    and "bitmap_params_ok (tree_params vi)"
    and "pg_index hpage = drop_bit (log_blocks_per_page (tree_params vi)) B"
  shows "is_hash_block_verified vi hpage B s =
           (if pg_checked s (pg_index hpage)
            then (hbv_bitmap s B,
                  s\<lparr>trace := trace s @ [Ev_PageChecked (pg_index hpage), Ev_smp_rmb, Ev_test_bit B]\<rparr>)
            else (False,
                  s\<lparr>pg_checked := (pg_checked s)(pg_index hpage := True),
                    hbv_bitmap := (\<lambda>b. hbv_bitmap s b \<and>
                       drop_bit (log_blocks_per_page (tree_params vi)) b \<noteq> pg_index hpage),
                    trace := trace s @ [Ev_PageChecked (pg_index hpage)] @
                       map (\<lambda>i. Ev_clear_bit
                              (push_bit (log_blocks_per_page (tree_params vi)) (pg_index hpage) + of_nat i))
                         [0..<2 ^ log_blocks_per_page (tree_params vi)] @
                       [Ev_smp_wmb, Ev_SetPageChecked (pg_index hpage)]\<rparr>))"
proof -
  let ?k = "log_blocks_per_page (tree_params vi)"
  have k: "?k < 32" and bpp: "blocks_per_page (tree_params vi) = 2 ^ ?k"
    using assms(2) by (simp_all add: bitmap_params_ok_def)
  have n: "unat (blocks_per_page (tree_params vi)) = 2 ^ ?k"
    using k bpp by (simp add: unat_pow2_u32)
  have rd: "round_down B (blocks_per_page (tree_params vi)) = push_bit ?k (pg_index hpage)"
    using k bpp assms(3) by (simp add: round_down_pow2)
  have blocks: "(\<forall>i<2 ^ ?k. b \<noteq> push_bit ?k (pg_index hpage) + of_nat i)
                  \<longleftrightarrow> drop_bit ?k b \<noteq> pg_index hpage" for b
    using same_page_iff [of ?k b B] assms(3) by auto
  show ?thesis
    using assms(1)
    by (simp add: is_hash_block_verified_def PageChecked_def test_bit_def smp_rmb_def smp_wmb_def
        SetPageChecked_def log_event_def Let_def n rd fold_clear_bit_eq blocks)
qed

lemma is_hash_block_verified_memo:
  assumes pg: "pg_index hpage = drop_bit (log_blocks_per_page (tree_params vi)) B"
    and wf: "hash_block_verified vi \<longrightarrow> bitmap_params_ok (tree_params vi)"
  shows "fst (is_hash_block_verified vi hpage B s) = memo_marked vi s B"
    and "fst (is_hash_block_verified vi hpage B s) \<Longrightarrow> same_memo s (snd (is_hash_block_verified vi hpage B s))"
    and "memo_marked vi (snd (is_hash_block_verified vi hpage B s)) b \<Longrightarrow> memo_marked vi s b"
    and "pg_checked s p \<Longrightarrow> pg_checked (snd (is_hash_block_verified vi hpage B s)) p"
    and "hbv_bitmap (snd (is_hash_block_verified vi hpage B s)) b \<Longrightarrow> hbv_bitmap s b"
    and "hash_block_verified vi \<Longrightarrow> pg_checked (snd (is_hash_block_verified vi hpage B s)) (pg_index hpage)"
    and "\<not> hash_block_verified vi \<Longrightarrow> same_memo s (snd (is_hash_block_verified vi hpage B s))"
proof -
  show "fst (is_hash_block_verified vi hpage B s) = memo_marked vi s B"
  proof (cases "hash_block_verified vi")
    case True
    with wf have "bitmap_params_ok (tree_params vi)" by simp
    from is_hash_block_verified_bitmap [OF True this pg, of s] True pg show ?thesis
      by (simp add: memo_marked_def)
  next
    case False
    then show ?thesis using pg by (simp add: is_hash_block_verified_flag memo_marked_def)
  qed
  show "fst (is_hash_block_verified vi hpage B s) \<Longrightarrow> same_memo s (snd (is_hash_block_verified vi hpage B s))"
  proof (cases "hash_block_verified vi")
    case True
    with wf have "bitmap_params_ok (tree_params vi)" by simp
    from is_hash_block_verified_bitmap [OF True this pg, of s]
    show "fst (is_hash_block_verified vi hpage B s) \<Longrightarrow> ?thesis"
      by (simp add: same_memo_def split: if_splits)
  next
    case False
    then show ?thesis by (simp add: is_hash_block_verified_flag)
  qed
  show "memo_marked vi (snd (is_hash_block_verified vi hpage B s)) b \<Longrightarrow> memo_marked vi s b"
  proof (cases "hash_block_verified vi")
    case True
    with wf have "bitmap_params_ok (tree_params vi)" by simp
    from is_hash_block_verified_bitmap [OF True this pg, of s] True
    show "memo_marked vi (snd (is_hash_block_verified vi hpage B s)) b \<Longrightarrow> ?thesis"
      by (auto simp: memo_marked_def split: if_splits)
  next
    case False
    then show "memo_marked vi (snd (is_hash_block_verified vi hpage B s)) b \<Longrightarrow> ?thesis"
      by (simp add: is_hash_block_verified_flag memo_marked_def)
  qed
  show "pg_checked s p \<Longrightarrow> pg_checked (snd (is_hash_block_verified vi hpage B s)) p"
  proof (cases "hash_block_verified vi")
    case True
    with wf have "bitmap_params_ok (tree_params vi)" by simp
    from is_hash_block_verified_bitmap [OF True this pg, of s]
    show "pg_checked s p \<Longrightarrow> ?thesis" by (auto split: if_splits)
  next
    case False
    then show "pg_checked s p \<Longrightarrow> ?thesis" by (simp add: is_hash_block_verified_flag)
  qed
  show "hbv_bitmap (snd (is_hash_block_verified vi hpage B s)) b \<Longrightarrow> hbv_bitmap s b"
  proof (cases "hash_block_verified vi")
    case True
    with wf have "bitmap_params_ok (tree_params vi)" by simp
    from is_hash_block_verified_bitmap [OF True this pg, of s]
    show "hbv_bitmap (snd (is_hash_block_verified vi hpage B s)) b \<Longrightarrow> ?thesis"
      by (auto split: if_splits)
  next
    case False
    then show "hbv_bitmap (snd (is_hash_block_verified vi hpage B s)) b \<Longrightarrow> ?thesis"
      by (simp add: is_hash_block_verified_flag)
  qed
  show "hash_block_verified vi \<Longrightarrow> pg_checked (snd (is_hash_block_verified vi hpage B s)) (pg_index hpage)"
  proof -
    assume b: "hash_block_verified vi"
    with wf have "bitmap_params_ok (tree_params vi)" by simp
    from is_hash_block_verified_bitmap [OF b this pg, of s] show ?thesis
      by (auto split: if_splits)
  qed
  show "\<not> hash_block_verified vi \<Longrightarrow> same_memo s (snd (is_hash_block_verified vi hpage B s))"
    by (simp add: is_hash_block_verified_flag)
qed

subsection \<open>One level of the ascent\<close>

lemma child_index_Suc:
  "child_index params pos (Suc l) = drop_bit (log_arity params) (child_index params pos l)"
  by (simp add: child_index_def)

lemma view_add_page:
  "view_add \<lparr>v_addr = Page_addr i 0, v_bytes = d\<rparr> off =
     \<lparr>v_addr = Page_addr i off, v_bytes = drop (unat off) d\<rparr>"
  by (simp add: view_add_def)

lemmas path_defs =
  page_index_def tree_block_index_def block_offset_in_page_def digest_offset_def

lemma ascend_level_cases [consumes 1, case_names failed verified held]:
  assumes "hidx = child_index (tree_params vi) pos level"
  obtains
    e where "read_merkle_tree_page inode (page_index (tree_params vi) pos level) = Inl e"
      and "ascend_level E inode vi max_ra level hidx s =
             Read_failed (fsverity_err (Err_reading_page e (page_index (tree_params vi) pos level))
                            (log_event (Ev_read_merkle_tree_page (page_index (tree_params vi) pos level)
                               (num_ra_pages (tree_params vi) max_ra level (page_index (tree_params vi) pos level)) False) s))"
  | d s3 where "read_merkle_tree_page inode (page_index (tree_params vi) pos level) = Inr d"
      and "is_hash_block_verified vi (hb_page (path_hb E inode (tree_params vi) pos level))
             (tree_block_index (tree_params vi) pos level)
             (log_event (Ev_kmap_local_page (page_index (tree_params vi) pos level))
                (log_event (Ev_read_merkle_tree_page (page_index (tree_params vi) pos level)
                   (num_ra_pages (tree_params vi) max_ra level (page_index (tree_params vi) pos level)) True) s)) = (True, s3)"
      and "ascend_level E inode vi max_ra level hidx s =
             Already_verified
               (take (unat (digest_size (tree_params vi)))
                  (drop (unat (digest_offset (tree_params vi) pos level))
                     (drop (unat (block_offset_in_page E (tree_params vi) pos level)) d)))
               (put_page (hb_page (path_hb E inode (tree_params vi) pos level))
                  (kunmap_local (hb_addr (path_hb E inode (tree_params vi) pos level)) s3))"
  | d s3 where "read_merkle_tree_page inode (page_index (tree_params vi) pos level) = Inr d"
      and "is_hash_block_verified vi (hb_page (path_hb E inode (tree_params vi) pos level))
             (tree_block_index (tree_params vi) pos level)
             (log_event (Ev_kmap_local_page (page_index (tree_params vi) pos level))
                (log_event (Ev_read_merkle_tree_page (page_index (tree_params vi) pos level)
                   (num_ra_pages (tree_params vi) max_ra level (page_index (tree_params vi) pos level)) True) s)) = (False, s3)"
      and "ascend_level E inode vi max_ra level hidx s =
             Not_verified (path_hb E inode (tree_params vi) pos level)
               (child_index (tree_params vi) pos (Suc level)) s3"
proof (cases "read_merkle_tree_page inode (page_index (tree_params vi) pos level)")
  case (Inl e)
  with Inl assms have eq: "ascend_level E inode vi max_ra level hidx s =
             Read_failed (fsverity_err (Err_reading_page e (page_index (tree_params vi) pos level))
                            (log_event (Ev_read_merkle_tree_page (page_index (tree_params vi) pos level)
                               (num_ra_pages (tree_params vi) max_ra level (page_index (tree_params vi) pos level)) False) s))"
    by (simp add: ascend_level_def Let_def path_defs)
  from that(1) [OF Inl eq] show ?thesis .
next
  case (Inr d)
  let ?s2 = "log_event (Ev_kmap_local_page (page_index (tree_params vi) pos level))
                (log_event (Ev_read_merkle_tree_page (page_index (tree_params vi) pos level)
                   (num_ra_pages (tree_params vi) max_ra level (page_index (tree_params vi) pos level)) True) s)"
  let ?hb = "path_hb E inode (tree_params vi) pos level"
  obtain r s3 where iv: "is_hash_block_verified vi (hb_page ?hb)
       (tree_block_index (tree_params vi) pos level) ?s2 = (r, s3)"
    by (cases "is_hash_block_verified vi (hb_page ?hb) (tree_block_index (tree_params vi) pos level) ?s2")
       blast
  show ?thesis
  proof (cases r)
    case True
    with Inr iv assms have eq: "ascend_level E inode vi max_ra level hidx s =
             Already_verified
               (take (unat (digest_size (tree_params vi)))
                  (drop (unat (digest_offset (tree_params vi) pos level))
                     (drop (unat (block_offset_in_page E (tree_params vi) pos level)) d)))
               (put_page (hb_page ?hb) (kunmap_local (hb_addr ?hb) s3))"
      by (simp add: ascend_level_def Let_def kmap_local_page_def view_add_page path_hb_def path_defs)
    from iv True have "is_hash_block_verified vi (hb_page ?hb)
       (tree_block_index (tree_params vi) pos level) ?s2 = (True, s3)" by simp
    from that(2) [OF Inr this eq] show ?thesis .
  next
    case False
    with Inr iv assms have eq: "ascend_level E inode vi max_ra level hidx s =
             Not_verified ?hb (child_index (tree_params vi) pos (Suc level)) s3"
      by (simp add: ascend_level_def Let_def kmap_local_page_def view_add_page path_hb_def path_defs
          child_index_Suc)
    from iv False have "is_hash_block_verified vi (hb_page ?hb)
       (tree_block_index (tree_params vi) pos level) ?s2 = (False, s3)" by simp
    from that(3) [OF Inr this eq] show ?thesis .
  qed
qed

lemma path_hb_fields:
  "pg_index (hb_page (path_hb E inode params pos l)) = page_index params pos l"
  "hb_index (path_hb E inode params pos l) = tree_block_index params pos l"
  "hb_hoffset (path_hb E inode params pos l) = digest_offset params pos l"
  "v_addr (hb_addr (path_hb E inode params pos l)) =
     Page_addr (page_index params pos l) (block_offset_in_page E params pos l)"
  by (simp_all add: path_hb_def Let_def view_add_page)

lemma path_hb_bytes:
  "tree_block E inode params pos l = Some blk \<Longrightarrow> v_bytes (hb_addr (path_hb E inode params pos l)) = blk"
  by (auto simp: path_hb_def Let_def view_add_page tree_block_def split: sum.splits)

lemma ascend_level_path:
  assumes "hidx = child_index (tree_params vi) pos level"
  shows "case ascend_level E inode vi max_ra level hidx s of
           Read_failed s' \<Rightarrow> tree_block E inode (tree_params vi) pos level = None
         | Already_verified want s' \<Rightarrow>
             tree_block E inode (tree_params vi) pos level \<noteq> None \<and>
             (level < num_levels (tree_params vi) \<longrightarrow> want = stored_digest E inode vi pos level)
         | Not_verified hb nh s' \<Rightarrow>
             tree_block E inode (tree_params vi) pos level \<noteq> None \<and>
             hb = path_hb E inode (tree_params vi) pos level \<and>
             nh = child_index (tree_params vi) pos (Suc level)"
  using assms
  by (cases rule: ascend_level_cases [where E = E and inode = inode and max_ra = max_ra and s = s])
     (simp_all add: tree_block_def stored_digest_def)

lemma ascend_level_resources:
  assumes "hidx = child_index (tree_params vi) pos level"
  shows "case ascend_level E inode vi max_ra level hidx s of
     Read_failed s' \<Rightarrow> same_resources s s'
   | Already_verified want s' \<Rightarrow> same_resources s s'
   | Not_verified hb nh s' \<Rightarrow>
       (\<forall>p. pinned (trace s') p = pinned (trace s) p + held_pins [hb] p) \<and>
       (\<forall>p. page_maps (trace s') p = page_maps (trace s) p + held_maps [hb] p) \<and>
       data_maps (trace s') = data_maps (trace s)"
  using assms
proof (cases rule: ascend_level_cases [where E = E and inode = inode and max_ra = max_ra and s = s])
  case (failed e)
  then show ?thesis by (simp add: same_resources_def fun_eq_iff)
next
  case (verified d s3)
  from is_hash_block_verified_resources verified(2)
  have "same_resources (log_event (Ev_kmap_local_page (page_index (tree_params vi) pos level))
                (log_event (Ev_read_merkle_tree_page (page_index (tree_params vi) pos level)
                   (num_ra_pages (tree_params vi) max_ra level (page_index (tree_params vi) pos level)) True) s)) s3"
    by (metis snd_conv)
  with verified(3) show ?thesis by (simp add: same_resources_def fun_eq_iff path_hb_fields)
next
  case (held d s3)
  from is_hash_block_verified_resources held(2)
  have "same_resources (log_event (Ev_kmap_local_page (page_index (tree_params vi) pos level))
                (log_event (Ev_read_merkle_tree_page (page_index (tree_params vi) pos level)
                   (num_ra_pages (tree_params vi) max_ra level (page_index (tree_params vi) pos level)) True) s)) s3"
    by (metis snd_conv)
  with held(3) show ?thesis by (simp add: same_resources_def fun_eq_iff path_hb_fields)
qed

subsection \<open>The ascent\<close>

lemma ascend_shape:
  assumes "hidx = child_index (tree_params vi) pos level"
    and "level \<le> num_levels (tree_params vi)"
    and "ascend E inode vi max_ra level hidx hbs s = (r, hbs', s')"
  shows "\<exists>k. level \<le> k \<and> k \<le> num_levels (tree_params vi) \<and>
             hbs' = map (path_hb E inode (tree_params vi) pos) (rev [level..<k]) @ hbs \<and>
             (\<forall>j. level \<le> j \<and> j < k \<longrightarrow> tree_block E inode (tree_params vi) pos j \<noteq> None) \<and>
             (case r of
                None \<Rightarrow> k < num_levels (tree_params vi) \<and>
                        tree_block E inode (tree_params vi) pos k = None
              | Some want \<Rightarrow> want = stored_digest E inode vi pos k \<and>
                  (k < num_levels (tree_params vi) \<longrightarrow>
                     tree_block E inode (tree_params vi) pos k \<noteq> None))"
  using assms
proof (induction E inode vi max_ra level hidx hbs s arbitrary: r hbs' s' rule: ascend.induct)
  case (1 E inode vi max_ra level hidx hblocks s)
  let ?n = "num_levels (tree_params vi)"
  show ?case
  proof (cases "level < ?n")
    case False
    with "1.prems" have "r = Some (root_hash vi)" "hbs' = hblocks" "level = ?n"
      by (simp_all add: ascend.simps)
    then show ?thesis
      by (intro exI [of _ level]) (auto simp: stored_digest_def)
  next
    case True
    from ascend_level_path [OF "1.prems"(1), of E inode max_ra s]
    show ?thesis
    proof (cases "ascend_level E inode vi max_ra level hidx s")
      case (Read_failed s1)
      with True "1.prems"(3) have "r = None" "hbs' = hblocks" by (simp_all add: ascend.simps)
      moreover from Read_failed ascend_level_path [OF "1.prems"(1), of E inode max_ra s]
      have "tree_block E inode (tree_params vi) pos level = None" by simp
      ultimately show ?thesis using True by (intro exI [of _ level]) auto
    next
      case (Already_verified want s1)
      with True "1.prems"(3) have "r = Some want" "hbs' = hblocks" by (simp_all add: ascend.simps)
      moreover from Already_verified True ascend_level_path [OF "1.prems"(1), of E inode max_ra s]
      have "tree_block E inode (tree_params vi) pos level \<noteq> None"
        "want = stored_digest E inode vi pos level" by simp_all
      ultimately show ?thesis using True by (intro exI [of _ level]) auto
    next
      case (Not_verified hb nh s1)
      from Not_verified ascend_level_path [OF "1.prems"(1), of E inode max_ra s]
      have rd: "tree_block E inode (tree_params vi) pos level \<noteq> None"
        and hb: "hb = path_hb E inode (tree_params vi) pos level"
        and nh: "nh = child_index (tree_params vi) pos (level + 1)" by simp_all
      from True Not_verified "1.prems"(3)
      have rec: "ascend E inode vi max_ra (level + 1) nh (hb # hblocks) s1 = (r, hbs', s')"
        by (simp add: ascend.simps)
      from True have le: "level + 1 \<le> ?n" by simp
      from "1.IH" [OF True Not_verified nh le rec]
      obtain k where k: "level + 1 \<le> k" "k \<le> ?n"
        "hbs' = map (path_hb E inode (tree_params vi) pos) (rev [level + 1..<k]) @ hb # hblocks"
        "\<forall>j. level + 1 \<le> j \<and> j < k \<longrightarrow> tree_block E inode (tree_params vi) pos j \<noteq> None"
        "case r of
                None \<Rightarrow> k < ?n \<and> tree_block E inode (tree_params vi) pos k = None
              | Some want \<Rightarrow> want = stored_digest E inode vi pos k \<and>
                  (k < ?n \<longrightarrow> tree_block E inode (tree_params vi) pos k \<noteq> None)"
        by blast
      from k(1) have "[level..<k] = level # [level + 1..<k]" by (simp add: upt_conv_Cons)
      with k(3) hb have "hbs' = map (path_hb E inode (tree_params vi) pos) (rev [level..<k]) @ hblocks"
        by simp
      moreover from k(4) rd have
        "\<forall>j. level \<le> j \<and> j < k \<longrightarrow> tree_block E inode (tree_params vi) pos j \<noteq> None"
        by (metis Suc_eq_plus1 Suc_leI le_neq_implies_less)
      ultimately show ?thesis using k(1,2,5) by (intro exI [of _ k]) auto
    qed
  qed
qed

lemma memo_marked_ops [simp]:
  "memo_marked vi (log_event e s) = memo_marked vi s"
  "memo_marked vi (put_page pg s) = memo_marked vi s"
  "memo_marked vi (kunmap_local v s) = memo_marked vi s"
  "memo_marked vi (fsverity_err m s) = memo_marked vi s"
  by (simp_all add: memo_marked_def fun_eq_iff)

lemma memo_after_same: "same_memo s s' \<Longrightarrow> memo_after vi s s'"
  by (simp add: memo_after_def same_memo_def memo_marked_def)

lemma memo_after_trans: "memo_after vi s t \<Longrightarrow> memo_after vi t u \<Longrightarrow> memo_after vi s u"
  by (simp add: memo_after_def same_memo_def)

lemma is_hash_block_verified_after:
  assumes pg: "pg_index hpage = drop_bit (log_blocks_per_page (tree_params vi)) B"
    and wf: "hash_block_verified vi \<longrightarrow> bitmap_params_ok (tree_params vi)"
    and iv: "is_hash_block_verified vi hpage B s = (r, s')"
  shows "memo_after vi s s'"
  using is_hash_block_verified_memo(3,4,5,7) [OF pg wf, of s] iv
  by (simp add: memo_after_def)

lemma ascend_level_memo:
  assumes wf: "hash_block_verified vi \<longrightarrow> bitmap_params_ok (tree_params vi)"
    and hidx: "hidx = child_index (tree_params vi) pos level"
  shows "case ascend_level E inode vi max_ra level hidx s of
           Read_failed s' \<Rightarrow> same_memo s s'
         | Already_verified want s' \<Rightarrow>
             same_memo s s' \<and> memo_marked vi s (tree_block_index (tree_params vi) pos level)
         | Not_verified hb nh s' \<Rightarrow>
             memo_after vi s s' \<and>
             (hash_block_verified vi \<longrightarrow> pg_checked s' (page_index (tree_params vi) pos level))"
  using hidx
proof (cases rule: ascend_level_cases [where E = E and inode = inode and max_ra = max_ra and s = s])
  case (failed e)
  then show ?thesis by simp
next
  case (verified d s3)
  let ?s2 = "log_event (Ev_kmap_local_page (page_index (tree_params vi) pos level))
       (log_event (Ev_read_merkle_tree_page (page_index (tree_params vi) pos level)
          (num_ra_pages (tree_params vi) max_ra level (page_index (tree_params vi) pos level)) True) s)"
  have pg: "pg_index (hb_page (path_hb E inode (tree_params vi) pos level)) =
      drop_bit (log_blocks_per_page (tree_params vi)) (tree_block_index (tree_params vi) pos level)"
    by (simp add: path_hb_fields page_index_def)
  from is_hash_block_verified_memo(1,2) [OF pg wf, of ?s2] verified(2)
  have "memo_marked vi s (tree_block_index (tree_params vi) pos level)" "same_memo ?s2 s3"
    by simp_all
  with verified(3) show ?thesis by (simp add: same_memo_def)
next
  case (held d s3)
  let ?s2 = "log_event (Ev_kmap_local_page (page_index (tree_params vi) pos level))
       (log_event (Ev_read_merkle_tree_page (page_index (tree_params vi) pos level)
          (num_ra_pages (tree_params vi) max_ra level (page_index (tree_params vi) pos level)) True) s)"
  have pg: "pg_index (hb_page (path_hb E inode (tree_params vi) pos level)) =
      drop_bit (log_blocks_per_page (tree_params vi)) (tree_block_index (tree_params vi) pos level)"
    by (simp add: path_hb_fields page_index_def)
  from is_hash_block_verified_after [OF pg wf held(2)] have "memo_after vi ?s2 s3" .
  moreover have "memo_after vi s ?s2" by (rule memo_after_same) simp
  ultimately have a: "memo_after vi s s3" by (rule memo_after_trans [rotated])
  from is_hash_block_verified_memo(6) [OF pg wf, of ?s2] held(2)
  have d: "hash_block_verified vi \<longrightarrow> pg_checked s3 (page_index (tree_params vi) pos level)"
    by (simp add: path_hb_fields)
  from a d held(3) show ?thesis by simp
qed

lemma ascend_memo:
  assumes "hash_block_verified vi \<longrightarrow> bitmap_params_ok (tree_params vi)"
    and "hidx = child_index (tree_params vi) pos level"
    and "level \<le> num_levels (tree_params vi)"
    and "ascend E inode vi max_ra level hidx hbs s = (r, hbs', s')"
    and "hbs' = map (path_hb E inode (tree_params vi) pos) (rev [level..<k]) @ hbs"
    and "level \<le> k"
  shows "memo_after vi s s' \<and>
         (hash_block_verified vi \<longrightarrow>
            (\<forall>j. level \<le> j \<and> j < k \<longrightarrow> pg_checked s' (page_index (tree_params vi) pos j))) \<and>
         (r \<noteq> None \<and> k < num_levels (tree_params vi) \<longrightarrow>
            memo_marked vi s (tree_block_index (tree_params vi) pos k) \<and>
            memo_marked vi s' (tree_block_index (tree_params vi) pos k))"
  using assms
proof (induction E inode vi max_ra level hidx hbs s arbitrary: r hbs' s' rule: ascend.induct)
  case (1 E inode vi max_ra level hidx hblocks s)
  let ?n = "num_levels (tree_params vi)"
  note wf = "1.prems"(1) and hidx = "1.prems"(2)
  show ?case
  proof (cases "level < ?n")
    case False
    with "1.prems"(3,4) have "s' = s" "level = ?n" "hbs' = hblocks" by (simp_all add: ascend.simps)
    with "1.prems"(5,6) have "k = level" by auto
    with \<open>s' = s\<close> \<open>level = ?n\<close> show ?thesis by (auto simp: memo_after_same)
  next
    case True
    note lm = ascend_level_memo [OF wf hidx, where E = E and inode = inode and max_ra = max_ra and s = s]
    show ?thesis
    proof (cases "ascend_level E inode vi max_ra level hidx s")
      case (Read_failed s1)
      with True "1.prems"(4) have "r = None" "hbs' = hblocks" "s' = s1" by (simp_all add: ascend.simps)
      moreover from this "1.prems"(5,6) have "k = level" by auto
      moreover from Read_failed lm have "same_memo s s1" by simp
      ultimately show ?thesis by (auto simp: memo_after_same)
    next
      case (Already_verified want s1)
      with True "1.prems"(4) have "hbs' = hblocks" "s' = s1" by (simp_all add: ascend.simps)
      moreover from this "1.prems"(5,6) have "k = level" by auto
      moreover from Already_verified lm
      have "same_memo s s1" "memo_marked vi s (tree_block_index (tree_params vi) pos level)"
        by simp_all
      ultimately show ?thesis using same_memo_marked [of s s1 vi] by (auto simp: memo_after_same)
    next
      case (Not_verified hb nh s1)
      from Not_verified ascend_level_path [OF hidx, where E = E and inode = inode and max_ra = max_ra and s = s]
      have hb: "hb = path_hb E inode (tree_params vi) pos level"
        and nh: "nh = child_index (tree_params vi) pos (level + 1)" by simp_all
      from True Not_verified "1.prems"(4)
      have rec: "ascend E inode vi max_ra (level + 1) nh (hb # hblocks) s1 = (r, hbs', s')"
        by (simp add: ascend.simps)
      from True have le: "level + 1 \<le> ?n" by simp
      from ascend_shape [OF nh le rec] obtain k' where k': "level + 1 \<le> k'"
        "hbs' = map (path_hb E inode (tree_params vi) pos) (rev [level + 1..<k']) @ hb # hblocks"
        by blast
      have "length hbs' = k' - (level + 1) + 1 + length hblocks"
        by (simp only: k'(2)) simp
      moreover have "length hbs' = k - level + length hblocks"
        by (simp only: "1.prems"(5)) simp
      ultimately have kk: "k' = k" using k'(1) "1.prems"(6) by simp
      from k'(1) kk have k1: "level + 1 \<le> k" by simp
      note IH = "1.IH" [OF True Not_verified wf nh le rec k'(2) [unfolded kk] k1]
      from IH have ih1: "memo_after vi s1 s'" by simp
      from IH have ih2: "hash_block_verified vi \<longrightarrow>
            (\<forall>j. level + 1 \<le> j \<and> j < k \<longrightarrow> pg_checked s' (page_index (tree_params vi) pos j))"
        by simp
      from IH have ih3: "r \<noteq> None \<and> k < ?n \<longrightarrow>
            memo_marked vi s1 (tree_block_index (tree_params vi) pos k) \<and>
            memo_marked vi s' (tree_block_index (tree_params vi) pos k)" by simp
      from Not_verified lm have l1: "memo_after vi s s1"
        and l2: "hash_block_verified vi \<longrightarrow> pg_checked s1 (page_index (tree_params vi) pos level)"
        by simp_all
      have flags: "hash_block_verified vi \<longrightarrow>
            (\<forall>j. level \<le> j \<and> j < k \<longrightarrow> pg_checked s' (page_index (tree_params vi) pos j))"
      proof (intro impI allI)
        fix j assume b: "hash_block_verified vi" and j: "level \<le> j \<and> j < k"
        show "pg_checked s' (page_index (tree_params vi) pos j)"
        proof (cases "j = level")
          case True
          with b l2 ih1 show ?thesis by (simp add: memo_after_def)
        next
          case False
          with j have "level + 1 \<le> j \<and> j < k" by simp
          with b ih2 show ?thesis by simp
        qed
      qed
      have a: "memo_after vi s s'" using l1 ih1 by (rule memo_after_trans)
      have m: "r \<noteq> None \<and> k < ?n \<longrightarrow>
            memo_marked vi s (tree_block_index (tree_params vi) pos k) \<and>
            memo_marked vi s' (tree_block_index (tree_params vi) pos k)"
        using ih3 l1 by (simp add: memo_after_def)
      from a flags m show ?thesis by simp
    qed
  qed
qed

subsection \<open>Marking and releasing\<close>

lemma mark_verified_fields:
  "pg_checked (mark_verified vi pg B s) =
     (if hash_block_verified vi then pg_checked s else (pg_checked s)(pg_index pg := True))"
  "hbv_bitmap (mark_verified vi pg B s) =
     (if hash_block_verified vi then (hbv_bitmap s)(B := True) else hbv_bitmap s)"
  "trace (mark_verified vi pg B s) =
     trace s @ [if hash_block_verified vi then Ev_set_bit B else Ev_SetPageChecked (pg_index pg)]"
  by (simp_all add: mark_verified_def set_bit_def SetPageChecked_def)

lemma error_exit_fields [simp]:
  "pg_checked (error_exit hbs s) = pg_checked s"
  "hbv_bitmap (error_exit hbs s) = hbv_bitmap s"
  by (induction hbs arbitrary: s) simp_all

lemma error_exit_same_memo [simp]:
  "same_memo (error_exit hbs s) t = same_memo s t"
  "same_memo t (error_exit hbs s) = same_memo t s"
  by (simp_all add: same_memo_def)

lemma held_path:
  "held_maps (map (path_hb E inode params pos) js) p = held_pins (map (path_hb E inode params pos) js) p"
  by (induction js) (simp_all add: path_hb_fields)

lemma path_hb_no_data [simp]:
  "unmap_data_delta k (v_addr (hb_addr (path_hb E inode params pos j))) = 0"
  by (simp add: path_hb_fields)

lemma error_exit_resources:
  assumes "hbs = map (path_hb E inode params pos) js"
  shows "pinned (trace (error_exit hbs s)) p = pinned (trace s) p - held_pins hbs p \<and>
         page_maps (trace (error_exit hbs s)) p = page_maps (trace s) p - held_pins hbs p \<and>
         data_maps (trace (error_exit hbs s)) k = data_maps (trace s) k"
  using assms
proof (induction js arbitrary: hbs s)
  case Nil
  then show ?case by simp
next
  case (Cons j js)
  then obtain hbs' where h: "hbs = path_hb E inode params pos j # hbs'"
    "hbs' = map (path_hb E inode params pos) js" by auto
  from Cons.IH [OF h(2)] h(1) show ?case by (simp add: path_hb_fields)
qed

subsection \<open>The descent\<close>

lemma descend_Cons:
  "descend E vi dblock want (hb # hbs) s =
     (if hashes_to E (tree_params vi) (v_bytes (hb_addr hb)) want
      then descend E vi dblock
             (take (unat (digest_size (tree_params vi))) (v_bytes (view_add (hb_addr hb) (hb_hoffset hb))))
             hbs (put_page (hb_page hb) (kunmap_local (hb_addr hb)
                    (mark_verified vi (hb_page hb) (hb_index hb) s)))
      else (False, error_exit (hb # hbs)
              (if fst (fsverity_hash_block E (tree_params vi) (v_bytes (hb_addr hb))) \<noteq> 0 then s
               else fsverity_err (Err_corrupted (pb_pos dblock) (int (length hbs))) s)))"
  by (simp add: hashes_to_def Let_def split: prod.splits)

lemma descend_Nil:
  "descend E vi dblock want [] s =
     (if memcmp_ne want (real_hash dblock) (unat (digest_size (tree_params vi)))
      then (False, fsverity_err (Err_corrupted (pb_pos dblock) (- 1)) s)
      else (True, s))"
  by simp

declare descend.simps [simp del]

lemma descend_result:
  "fst (descend E vi dblock want hbs s) =
     (case chain_want E vi want hbs of
        None \<Rightarrow> False
      | Some w \<Rightarrow> \<not> memcmp_ne w (real_hash dblock) (unat (digest_size (tree_params vi))))"
  by (induction hbs arbitrary: want s) (simp_all add: descend_Nil descend_Cons)

lemma descend_resources:
  assumes "hbs = map (path_hb E' inode params pos) js"
  shows "pinned (trace (snd (descend E vi dblock want hbs s))) p = pinned (trace s) p - held_pins hbs p \<and>
         page_maps (trace (snd (descend E vi dblock want hbs s))) p = page_maps (trace s) p - held_pins hbs p \<and>
         data_maps (trace (snd (descend E vi dblock want hbs s))) k = data_maps (trace s) k"
  using assms
proof (induction js arbitrary: hbs s want)
  case Nil
  then show ?case by (simp add: descend_Nil)
next
  case (Cons j js)
  then obtain hbs' where h: "hbs = path_hb E' inode params pos j # hbs'"
    "hbs' = map (path_hb E' inode params pos) js" by auto
  note IH = Cons.IH [OF h(2)]
  note ee = error_exit_resources [OF h(2), of _ p k]
  show ?case
  proof (cases "hashes_to E (tree_params vi) (v_bytes (hb_addr (path_hb E' inode params pos j))) want")
    case True
    with IH show ?thesis
      by (simp add: h(1) descend_Cons path_hb_fields mark_verified_fields)
  next
    case False
    with ee show ?thesis
      by (simp add: h(1) descend_Cons path_hb_fields)
  qed
qed

lemma descend_monotone:
  "(pg_checked s p \<longrightarrow> pg_checked (snd (descend E vi dblock want hbs s)) p) \<and>
   (hbv_bitmap s b \<longrightarrow> hbv_bitmap (snd (descend E vi dblock want hbs s)) b)"
proof (induction hbs arbitrary: want s)
  case Nil
  then show ?case by (simp add: descend_Nil)
next
  case (Cons x hbs)
  from Cons [of "put_page (hb_page x) (kunmap_local (hb_addr x) (mark_verified vi (hb_page x) (hb_index x) s))"]
  show ?case by (simp add: descend_Cons mark_verified_fields)
qed

lemma descend_marks:
  assumes "chain_want E vi want hbs \<noteq> None" and "hb \<in> set hbs"
  shows "if hash_block_verified vi
         then hbv_bitmap (snd (descend E vi dblock want hbs s)) (hb_index hb)
         else pg_checked (snd (descend E vi dblock want hbs s)) (pg_index (hb_page hb))"
  using assms
proof (induction hbs arbitrary: want s)
  case Nil
  then show ?case by simp
next
  case (Cons x hbs)
  let ?s2 = "put_page (hb_page x) (kunmap_local (hb_addr x) (mark_verified vi (hb_page x) (hb_index x) s))"
  let ?w = "take (unat (digest_size (tree_params vi))) (v_bytes (view_add (hb_addr x) (hb_hoffset x)))"
  from Cons.prems(1) have ok: "hashes_to E (tree_params vi) (v_bytes (hb_addr x)) want"
    and rest: "chain_want E vi ?w hbs \<noteq> None" by (simp_all split: if_splits)
  from ok have d: "descend E vi dblock want (x # hbs) s = descend E vi dblock ?w hbs ?s2"
    by (simp add: descend_Cons)
  show ?case
  proof (cases "hb \<in> set hbs")
    case True
    from Cons.IH [OF rest True, of ?s2] show ?thesis by (simp only: d)
  next
    case False
    with Cons.prems(2) have "hb = x" by simp
    moreover have "hash_block_verified vi \<Longrightarrow> hbv_bitmap ?s2 (hb_index x)"
      and "\<not> hash_block_verified vi \<Longrightarrow> pg_checked ?s2 (pg_index (hb_page x))"
      by (simp_all add: mark_verified_fields)
    moreover note descend_monotone [of ?s2 "pg_index (hb_page x)" E vi dblock ?w hbs "hb_index x"]
    ultimately show ?thesis
      by (cases "hash_block_verified vi") (simp_all only: d if_True if_False, blast+)
  qed
qed

lemma descend_same_memo:
  assumes "same_memo s t"
  shows "same_memo (snd (descend E vi dblock want hbs s)) (snd (descend E vi dblock want hbs t))"
  using assms
proof (induction hbs arbitrary: want s t)
  case Nil
  then show ?case by (simp add: descend_Nil)
next
  case (Cons x hbs)
  have "same_memo (put_page (hb_page x) (kunmap_local (hb_addr x) (mark_verified vi (hb_page x) (hb_index x) s)))
                  (put_page (hb_page x) (kunmap_local (hb_addr x) (mark_verified vi (hb_page x) (hb_index x) t)))"
    using Cons.prems by (simp add: same_memo_def mark_verified_fields)
  from Cons.IH [OF this] Cons.prems show ?case
    by (simp add: descend_Cons)
qed

subsection \<open>The checks of the descent along the path\<close>

lemma path_ok_iff:
  "path_ok E inode vi pos l \<longleftrightarrow>
     (\<forall>j. l \<le> j \<and> j < num_levels (tree_params vi) \<longrightarrow> level_ok E inode vi pos j)"
  by (auto simp: path_ok_def list_all_iff)

lemma level_ok_readable:
  "level_ok E inode vi pos j \<Longrightarrow> tree_block E inode (tree_params vi) pos j \<noteq> None"
  by (auto simp: level_ok_def split: option.splits)

lemma chain_want_path:
  assumes "\<forall>j<k. tree_block E inode (tree_params vi) pos j \<noteq> None"
    and "k \<le> num_levels (tree_params vi)"
  shows "chain_want E vi (stored_digest E inode vi pos k) (path_hbs E inode (tree_params vi) pos k) =
           (if \<forall>j<k. level_ok E inode vi pos j then Some (stored_digest E inode vi pos 0) else None)"
  using assms
proof (induction k)
  case 0
  then show ?case by (simp add: path_hbs_def)
next
  case (Suc k)
  from Suc.prems obtain blk where blk: "tree_block E inode (tree_params vi) pos k = Some blk"
    by auto
  from Suc.prems have k: "k < num_levels (tree_params vi)" by simp
  have hbs: "path_hbs E inode (tree_params vi) pos (Suc k) =
      path_hb E inode (tree_params vi) pos k # path_hbs E inode (tree_params vi) pos k"
    by (simp add: path_hbs_def)
  have lo: "level_ok E inode vi pos k =
     hashes_to E (tree_params vi) blk (stored_digest E inode vi pos (Suc k))"
    by (simp add: level_ok_def blk)
  have sd: "take (unat (digest_size (tree_params vi)))
       (v_bytes (view_add (hb_addr (path_hb E inode (tree_params vi) pos k))
                          (hb_hoffset (path_hb E inode (tree_params vi) pos k)))) =
     stored_digest E inode vi pos k"
    using k blk by (simp add: stored_digest_def path_hb_bytes path_hb_fields)
  from Suc.prems have IH: "chain_want E vi (stored_digest E inode vi pos k) (path_hbs E inode (tree_params vi) pos k) =
           (if \<forall>j<k. level_ok E inode vi pos j then Some (stored_digest E inode vi pos 0) else None)"
    by (intro Suc.IH) simp_all
  show ?case
    by (simp only: hbs chain_want.simps sd IH path_hb_bytes [OF blk] flip: lo)
       (auto simp: less_Suc_eq)
qed

section \<open>Claims about the tree walker\<close>

lemma child_index_0: "child_index params pos 0 = drop_bit (log_blocksize params) pos"
  by (simp add: child_index_def)

lemma verify_data_block_inside:
  assumes "pb_pos dblock < i_size inode"
    and "ascend E inode vi max_ra 0 (child_index (tree_params vi) (pb_pos dblock) 0) [] s = (r, hbs, s1)"
  shows "verify_data_block E inode vi dblock max_ra s =
           (case r of None \<Rightarrow> (False, error_exit hbs s1)
            | Some want \<Rightarrow> descend E vi dblock want hbs s1)"
  using assms by (simp add: verify_data_block_def Let_def child_index_0 not_le [symmetric]
      split: option.splits)

text \<open>
  C1. Soundness of \<open>verify_data_block\<close>. The data block comes with the hash of its
  body, as the flush computes it, and the memoization state is sound for its position
  (a state without flags is, and walks over an unchanged tree keep it so: see the last
  section); with a bitmap the sizes are consistent. Then the walk returns success
  exactly when the tree with its root hash authenticates the body at the block's
  position, or the position is at or past the end of the file and the body is all
  zeroes.
\<close>

theorem verify_data_block_sound:
  assumes wf: "hash_block_verified vi \<longrightarrow> bitmap_params_ok (tree_params vi)"
    and hash: "fsverity_hash_block E (tree_params vi) (v_bytes (pb_data dblock)) = (0, real_hash dblock)"
    and memo: "memo_sound E inode vi (pb_pos dblock) s"
  shows "fst (verify_data_block E inode vi dblock max_ra s) \<longleftrightarrow>
           authenticates E inode vi (pb_pos dblock) (v_bytes (pb_data dblock)) \<or>
           (i_size inode \<le> pb_pos dblock \<and>
            all_zero (unat (block_size (tree_params vi))) (v_bytes (pb_data dblock)))"
proof (cases "pb_pos dblock < i_size inode")
  case False
  then show ?thesis
    by (simp add: verify_data_block_def memchr_inv_def all_zero_def authenticates_def
        list_ex_iff list_all_iff not_less)
next
  case True
  let ?pos = "pb_pos dblock" and ?n = "num_levels (tree_params vi)"
  let ?hs = "unat (digest_size (tree_params vi))"
  obtain r hbs s1 where asc:
    "ascend E inode vi max_ra 0 (child_index (tree_params vi) ?pos 0) [] s = (r, hbs, s1)"
    by (cases "ascend E inode vi max_ra 0 (child_index (tree_params vi) ?pos 0) [] s") blast
  note vdb = verify_data_block_inside [OF True asc]
  from ascend_shape [OF refl _ asc] obtain k where k: "k \<le> ?n"
    and hbs: "hbs = path_hbs E inode (tree_params vi) ?pos k"
    and rd: "\<forall>j<k. tree_block E inode (tree_params vi) ?pos j \<noteq> None"
    and res: "case r of
                None \<Rightarrow> k < ?n \<and> tree_block E inode (tree_params vi) ?pos k = None
              | Some want \<Rightarrow> want = stored_digest E inode vi ?pos k \<and>
                  (k < ?n \<longrightarrow> tree_block E inode (tree_params vi) ?pos k \<noteq> None)"
    by (auto simp: path_hbs_def)
  have ht: "hashes_to E (tree_params vi) (v_bytes (pb_data dblock)) w = (\<not> memcmp_ne w (real_hash dblock) ?hs)" for w
    by (simp add: hashes_to_def hash)
  from True have ni: "\<not> i_size inode \<le> ?pos" by (simp add: not_le)
  have auth: "authenticates E inode vi ?pos (v_bytes (pb_data dblock)) \<longleftrightarrow>
      path_ok E inode vi ?pos 0 \<and> \<not> memcmp_ne (stored_digest E inode vi ?pos 0) (real_hash dblock) ?hs"
    using True by (simp add: authenticates_def ht)
  show ?thesis
  proof (cases r)
    case None
    with res have "k < ?n" "tree_block E inode (tree_params vi) ?pos k = None" by simp_all
    then have "\<not> path_ok E inode vi ?pos 0"
      using level_ok_readable [of E inode vi ?pos k] by (auto simp: path_ok_iff)
    with None ni vdb show ?thesis by (simp add: auth)
  next
    case (Some want)
    with res have want: "want = stored_digest E inode vi ?pos k" by simp
    have hbs0: "hbs = map (path_hb E inode (tree_params vi) ?pos) (rev [0..<k]) @ []"
      by (simp add: hbs path_hbs_def)
    from ascend_memo [OF wf refl _ asc hbs0] Some
    have "k < ?n \<longrightarrow> memo_marked vi s (tree_block_index (tree_params vi) ?pos k)" by simp
    with memo k have above: "path_ok E inode vi ?pos k"
      by (cases "k < ?n") (auto simp: memo_sound_def list_all_iff path_ok_iff)
    have split: "path_ok E inode vi ?pos 0 \<longleftrightarrow> (\<forall>j<k. level_ok E inode vi ?pos j)"
      using above k by (auto simp: path_ok_iff) (meson not_le)
    from Some vdb have "fst (verify_data_block E inode vi dblock max_ra s) =
        fst (descend E vi dblock want hbs s1)" by simp
    also have "\<dots> = ((\<forall>j<k. level_ok E inode vi ?pos j) \<and>
        \<not> memcmp_ne (stored_digest E inode vi ?pos 0) (real_hash dblock) ?hs)"
      by (simp add: descend_result want hbs chain_want_path [OF rd k])
    finally show ?thesis using ni by (simp add: auth split)
  qed
qed

theorem verify_data_block_sound_witness:
  "hash_block_verified ex_vi_bitmap \<and> bitmap_params_ok (tree_params ex_vi_bitmap) \<and>
   fsverity_hash_block (ex_env 3) (tree_params ex_vi_bitmap)
       (v_bytes (pb_data (ex_block 4 [66, 66, 66, 66] [9]))) = (0, real_hash (ex_block 4 [66, 66, 66, 66] [9])) \<and>
   memo_sound (ex_env 3) ex_inode_bitmap ex_vi_bitmap (pb_pos (ex_block 4 [66, 66, 66, 66] [9])) ex_state \<and>
   authenticates (ex_env 3) ex_inode_bitmap ex_vi_bitmap 4 [66, 66, 66, 66] \<and>
   fst (verify_data_block (ex_env 3) ex_inode_bitmap ex_vi_bitmap (ex_block 4 [66, 66, 66, 66] [9]) 0 ex_state)"
proof -
  let ?d = "ex_block 4 [66, 66, 66, 66] [9]"
  have h1: "hash_block_verified ex_vi_bitmap \<longrightarrow> bitmap_params_ok (tree_params ex_vi_bitmap)"
    by code_simp
  have b0: "hash_block_verified ex_vi_bitmap" "bitmap_params_ok (tree_params ex_vi_bitmap)"
    by code_simp+
  have h2: "fsverity_hash_block (ex_env 3) (tree_params ex_vi_bitmap) (v_bytes (pb_data ?d))
              = (0, real_hash ?d)"
    by code_simp
  have h3: "memo_sound (ex_env 3) ex_inode_bitmap ex_vi_bitmap (pb_pos ?d) ex_state"
    by code_simp
  have a: "authenticates (ex_env 3) ex_inode_bitmap ex_vi_bitmap (pb_pos ?d) (v_bytes (pb_data ?d))"
    by code_simp
  have e: "pb_pos ?d = 4" "v_bytes (pb_data ?d) = [66, 66, 66, 66]"
    by (simp_all add: ex_block_def)
  from verify_data_block_sound [OF h1 h2 h3, of 0] a
  have "fst (verify_data_block (ex_env 3) ex_inode_bitmap ex_vi_bitmap ?d 0 ex_state)" by simp
  with b0 h2 h3 a show ?thesis by (simp only: e simp_thms)
qed

text \<open>
  C4, as stated, fails. In the small file the second data block is altered. Its walk
  from a fresh state fails, and afterwards the flag that memoizes the leaf hash block is
  set; the same holds when the first data block has been verified before.
\<close>

theorem leaf_failure_memo_counterexample:
  "path_ok (ex_env 2) ex_inode ex_vi 4 0 \<and>
   fsverity_hash_block (ex_env 2) (tree_params ex_vi) [66, 66, 67, 66] = (0, [10]) \<and>
   stored_digest (ex_env 2) ex_inode ex_vi 4 0 = [9] \<and>
   \<not> pg_checked ex_state 0 \<and>
   \<not> fst (verify_data_block (ex_env 2) ex_inode ex_vi (ex_block 4 [66, 66, 67, 66] [10]) 0 ex_state) \<and>
   pg_checked (snd (verify_data_block (ex_env 2) ex_inode ex_vi
                      (ex_block 4 [66, 66, 67, 66] [10]) 0 ex_state)) 0 \<and>
   fst (verify_data_block (ex_env 2) ex_inode ex_vi (ex_block 0 [65, 65, 65, 65] [5]) 0 ex_state) \<and>
   \<not> fst (verify_data_block (ex_env 2) ex_inode ex_vi (ex_block 4 [66, 66, 67, 66] [10]) 0
           (snd (verify_data_block (ex_env 2) ex_inode ex_vi (ex_block 0 [65, 65, 65, 65] [5]) 0 ex_state))) \<and>
   pg_checked (snd (verify_data_block (ex_env 2) ex_inode ex_vi (ex_block 4 [66, 66, 67, 66] [10]) 0
           (snd (verify_data_block (ex_env 2) ex_inode ex_vi (ex_block 0 [65, 65, 65, 65] [5]) 0 ex_state)))) 0"
  by code_simp

text \<open>
  C4, amended. When the hash blocks on the path of a data block are consistent with
  the root hash and the hash of the data block differs from the digest stored for it in
  the leaf hash block, the walk fails, and after it the leaf hash block counts as
  verified: it was so before, or the descent has verified and marked it before the data
  block was compared.
\<close>

theorem leaf_failure_marks_leaf_block:
  assumes wf: "hash_block_verified vi \<longrightarrow> bitmap_params_ok (tree_params vi)"
    and n: "0 < num_levels (tree_params vi)"
    and inside: "pb_pos dblock < i_size inode"
    and tree: "path_ok E inode vi (pb_pos dblock) 0"
    and leaf: "memcmp_ne (stored_digest E inode vi (pb_pos dblock) 0) (real_hash dblock)
                 (unat (digest_size (tree_params vi)))"
  shows "\<not> fst (verify_data_block E inode vi dblock max_ra s) \<and>
         memo_marked vi (snd (verify_data_block E inode vi dblock max_ra s))
           (tree_block_index (tree_params vi) (pb_pos dblock) 0)"
proof -
  let ?pos = "pb_pos dblock" and ?n = "num_levels (tree_params vi)"
  let ?hs = "unat (digest_size (tree_params vi))"
  obtain r hbs s1 where asc:
    "ascend E inode vi max_ra 0 (child_index (tree_params vi) ?pos 0) [] s = (r, hbs, s1)"
    by (cases "ascend E inode vi max_ra 0 (child_index (tree_params vi) ?pos 0) [] s") blast
  note vdb = verify_data_block_inside [OF inside asc]
  from ascend_shape [OF refl _ asc] obtain k where k: "k \<le> ?n"
    and hbs: "hbs = path_hbs E inode (tree_params vi) ?pos k"
    and rd: "\<forall>j<k. tree_block E inode (tree_params vi) ?pos j \<noteq> None"
    and res: "case r of
                None \<Rightarrow> k < ?n \<and> tree_block E inode (tree_params vi) ?pos k = None
              | Some want \<Rightarrow> want = stored_digest E inode vi ?pos k \<and>
                  (k < ?n \<longrightarrow> tree_block E inode (tree_params vi) ?pos k \<noteq> None)"
    by (auto simp: path_hbs_def)
  from tree have ok: "\<forall>j<?n. level_ok E inode vi ?pos j" by (simp add: path_ok_iff)
  have "r \<noteq> None"
  proof
    assume "r = None"
    with res have "k < ?n" "tree_block E inode (tree_params vi) ?pos k = None" by simp_all
    with ok level_ok_readable [of E inode vi ?pos k] show False by simp
  qed
  then obtain want where r: "r = Some want" by auto
  with res have want: "want = stored_digest E inode vi ?pos k" by simp
  from ok k have okk: "\<forall>j<k. level_ok E inode vi ?pos j" by simp
  have cw: "chain_want E vi want hbs = Some (stored_digest E inode vi ?pos 0)"
    using okk by (simp add: want hbs chain_want_path [OF rd k])
  let ?out = "descend E vi dblock want hbs s1"
  from r vdb have v: "verify_data_block E inode vi dblock max_ra s = ?out" by simp
  have rej: "\<not> fst ?out" using leaf by (simp add: descend_result cw)
  have hbs0: "hbs = map (path_hb E inode (tree_params vi) ?pos) (rev [0..<k]) @ []"
    by (simp add: hbs path_hbs_def)
  note am = ascend_memo [OF wf refl _ asc hbs0]
  have "memo_marked vi (snd ?out) (tree_block_index (tree_params vi) ?pos 0)"
  proof (cases "k = 0")
    case True
    with am r n have m: "memo_marked vi s1 (tree_block_index (tree_params vi) ?pos 0)" by simp
    from True hbs have "hbs = []" by (simp add: path_hbs_def)
    then have "same_memo s1 (snd ?out)" by (simp add: descend_Nil)
    with m show ?thesis by (simp add: same_memo_marked)
  next
    case False
    then have mem: "path_hb E inode (tree_params vi) ?pos 0 \<in> set hbs"
      by (auto simp: hbs path_hbs_def)
    from cw have "chain_want E vi want hbs \<noteq> None" by simp
    note dm = descend_marks [OF this mem, of dblock s1]
    from am False have fl: "hash_block_verified vi \<longrightarrow> pg_checked s1 (page_index (tree_params vi) ?pos 0)"
      by simp
    note mono = descend_monotone [of s1 "page_index (tree_params vi) ?pos 0" E vi dblock want hbs]
    show ?thesis
    proof (cases "hash_block_verified vi")
      case True
      with dm fl mono show ?thesis
        by (simp add: memo_marked_def path_hb_fields page_index_def)
    next
      case False
      with dm show ?thesis
        by (simp add: memo_marked_def path_hb_fields page_index_def)
    qed
  qed
  with rej v show ?thesis by simp
qed

theorem leaf_failure_marks_leaf_block_witness:
  "hash_block_verified ex_vi_bitmap \<and> bitmap_params_ok (tree_params ex_vi_bitmap) \<and>
   0 < num_levels (tree_params ex_vi_bitmap) \<and>
   pb_pos (ex_block 4 [66, 66, 67, 66] [10]) < i_size ex_inode_bitmap \<and>
   path_ok (ex_env 3) ex_inode_bitmap ex_vi_bitmap (pb_pos (ex_block 4 [66, 66, 67, 66] [10])) 0 \<and>
   memcmp_ne (stored_digest (ex_env 3) ex_inode_bitmap ex_vi_bitmap (pb_pos (ex_block 4 [66, 66, 67, 66] [10])) 0)
      (real_hash (ex_block 4 [66, 66, 67, 66] [10])) (unat (digest_size (tree_params ex_vi_bitmap))) \<and>
   \<not> fst (verify_data_block (ex_env 3) ex_inode_bitmap ex_vi_bitmap (ex_block 4 [66, 66, 67, 66] [10]) 0 ex_state) \<and>
   memo_marked ex_vi_bitmap
     (snd (verify_data_block (ex_env 3) ex_inode_bitmap ex_vi_bitmap (ex_block 4 [66, 66, 67, 66] [10]) 0 ex_state))
     (tree_block_index (tree_params ex_vi_bitmap) (pb_pos (ex_block 4 [66, 66, 67, 66] [10])) 0)"
proof -
  let ?d = "ex_block 4 [66, 66, 67, 66] [10]"
  have h1: "hash_block_verified ex_vi_bitmap \<longrightarrow> bitmap_params_ok (tree_params ex_vi_bitmap)"
    by code_simp
  have b0: "hash_block_verified ex_vi_bitmap" "bitmap_params_ok (tree_params ex_vi_bitmap)"
    by code_simp+
  have h2: "0 < num_levels (tree_params ex_vi_bitmap)" by code_simp
  have h3: "pb_pos ?d < i_size ex_inode_bitmap" by code_simp
  have h4: "path_ok (ex_env 3) ex_inode_bitmap ex_vi_bitmap (pb_pos ?d) 0" by code_simp
  have h5: "memcmp_ne (stored_digest (ex_env 3) ex_inode_bitmap ex_vi_bitmap (pb_pos ?d) 0)
      (real_hash ?d) (unat (digest_size (tree_params ex_vi_bitmap)))" by code_simp
  from leaf_failure_marks_leaf_block [OF h1 h2 h3 h4 h5, of 0 ex_state] b0 h2 h3 h4 h5
  show ?thesis by blast
qed

section \<open>Claims about the entry checks and the end of the file\<close>

text \<open>
  C9. A call of \<open>fsverity_add_data_blocks\<close> or of \<open>fsverity_verify_blocks\<close> with a
  length of 0 returns failure, whatever the offset, and leaves the kernel state as it was.
\<close>

theorem zero_length_rejected:
  "fsverity_add_data_blocks E ctx fol 0 offset s = Some (False, ctx, s) \<and>
   fsverity_verify_blocks E fol 0 offset s = Some (False, s)"
  by (simp add: fsverity_add_data_blocks_def fsverity_verify_blocks_def
      fsverity_clear_pending_blocks_def fsverity_init_verification_context_def)

theorem zero_length_rejected_witness:
  "fsverity_verify_blocks (ex_env 2) (ex_folio ex_inode [65, 65, 65, 65, 66, 66, 66, 66]) 0 0 ex_state
     = Some (False, ex_state)"
  using zero_length_rejected [of "ex_env 2" _ "ex_folio ex_inode [65, 65, 65, 65, 66, 66, 66, 66]" 0 ex_state]
  by simp

text \<open>
  C2. For a data block whose position is at or beyond the file size, \<open>verify_data_block\<close>
  accepts exactly when the \<open>block_size\<close> bytes of its body are all zero. An
  acceptance leaves the state untouched; a rejection only adds the message that data past
  the end of the file is not zeroed. In both cases no tree page is read.
\<close>

theorem past_eof_contract:
  assumes "i_size inode \<le> pb_pos dblock"
  shows "verify_data_block E inode vi dblock max_ra s =
           (if all_zero (unat (block_size (tree_params vi))) (v_bytes (pb_data dblock))
            then (True, s)
            else (False, s\<lparr>trace := trace s @ [Ev_fsverity_err Err_past_EOF_not_zeroed]\<rparr>))"
  using assms
  by (simp add: verify_data_block_def memchr_inv_def all_zero_def fsverity_err_def log_event_def
      list_ex_iff list_all_iff)

theorem past_eof_contract_witness:
  "i_size ex_inode \<le> pb_pos (ex_block 8 [0, 0, 0, 0] []) \<and>
   verify_data_block (ex_env 2) ex_inode ex_vi (ex_block 8 [0, 0, 0, 0] []) 0 ex_state = (True, ex_state) \<and>
   i_size ex_inode \<le> pb_pos (ex_block 8 [0, 0, 7, 0] []) \<and>
   fst (verify_data_block (ex_env 2) ex_inode ex_vi (ex_block 8 [0, 0, 7, 0] []) 0 ex_state) = False"
proof -
  have h: "i_size ex_inode \<le> pb_pos (ex_block 8 body [])" for body
    by (simp add: ex_inode_def ex_block_def)
  have z: "all_zero (unat (block_size (tree_params ex_vi))) (v_bytes (pb_data (ex_block 8 [0, 0, 0, 0] [])))"
    by (simp add: all_zero_def ex_block_def ex_vi_def ex_params_def)
  have nz: "\<not> all_zero (unat (block_size (tree_params ex_vi))) (v_bytes (pb_data (ex_block 8 [0, 0, 7, 0] [])))"
    by (simp add: all_zero_def ex_block_def ex_vi_def ex_params_def)
  show ?thesis
    using h [of "[0, 0, 0, 0]"] h [of "[0, 0, 7, 0]"] z nz
      past_eof_contract [OF h [of "[0, 0, 0, 0]"], where E = "ex_env 2" and vi = ex_vi
        and max_ra = 0 and s = ex_state]
      past_eof_contract [OF h [of "[0, 0, 7, 0]"], where E = "ex_env 2" and vi = ex_vi
        and max_ra = 0 and s = ex_state]
    by simp
qed

section \<open>Claims about the memoization layer\<close>

subsection \<open>The marks of a walk and the flags of their pages\<close>

lemma set_bit_events_append [simp]:
  "set_bit_events (xs @ ys) = set_bit_events xs @ set_bit_events ys"
  by (induction xs rule: set_bit_events.induct) simp_all

lemma set_bit_events_clear_bits [simp]:
  "set_bit_events (map (\<lambda>i. Ev_clear_bit (f i)) xs) = []"
  by (induction xs) simp_all

lemma query_flag:
  assumes "is_hash_block_verified vi hpage B s = (r, s')"
  shows "hash_block_verified vi \<Longrightarrow> pg_checked s' (pg_index hpage)"
    and "pg_checked s p \<Longrightarrow> pg_checked s' p"
    and "set_bit_events (trace s') = set_bit_events (trace s)"
proof -
  assume b: "hash_block_verified vi"
  show "pg_checked s' (pg_index hpage)"
    using assms b
    by (cases "pg_checked s (pg_index hpage)")
       (auto simp: is_hash_block_verified_def PageChecked_def test_bit_def smp_rmb_def smp_wmb_def
          SetPageChecked_def Let_def fold_clear_bit_flags)
next
  assume "pg_checked s p"
  then show "pg_checked s' p"
    using assms
    by (cases "pg_checked s (pg_index hpage)"; cases "hash_block_verified vi")
       (auto simp: is_hash_block_verified_def PageChecked_def test_bit_def smp_rmb_def smp_wmb_def
          SetPageChecked_def Let_def fold_clear_bit_flags)
next
  show "set_bit_events (trace s') = set_bit_events (trace s)"
    using assms
    by (cases "pg_checked s (pg_index hpage)"; cases "hash_block_verified vi")
       (auto simp: is_hash_block_verified_def PageChecked_def test_bit_def smp_rmb_def smp_wmb_def
          SetPageChecked_def Let_def fold_clear_bit_trace)
qed

lemma ascend_level_flags:
  "case ascend_level E inode vi max_ra level hidx s of
     Read_failed s' \<Rightarrow>
       (\<forall>p. pg_checked s p \<longrightarrow> pg_checked s' p) \<and>
       set_bit_events (trace s') = set_bit_events (trace s)
   | Already_verified want s' \<Rightarrow>
       (\<forall>p. pg_checked s p \<longrightarrow> pg_checked s' p) \<and>
       set_bit_events (trace s') = set_bit_events (trace s)
   | Not_verified hb nh s' \<Rightarrow>
       (\<forall>p. pg_checked s p \<longrightarrow> pg_checked s' p) \<and>
       set_bit_events (trace s') = set_bit_events (trace s) \<and>
       (hash_block_verified vi \<longrightarrow> pg_checked s' (pg_index (hb_page hb))) \<and>
       pg_index (hb_page hb) = drop_bit (log_blocks_per_page (tree_params vi)) (hb_index hb)"
proof (cases "read_merkle_tree_page inode
    (drop_bit (log_blocks_per_page (tree_params vi))
       (level_start (tree_params vi) ! level + drop_bit (log_arity (tree_params vi)) hidx))")
  case (Inl e)
  then show ?thesis by (simp add: ascend_level_def Let_def)
next
  case (Inr d)
  let ?B = "level_start (tree_params vi) ! level + drop_bit (log_arity (tree_params vi)) hidx"
  let ?pi = "drop_bit (log_blocks_per_page (tree_params vi)) ?B"
  let ?pg = "\<lparr>pg_index = ?pi, pg_data = d\<rparr>"
  let ?s2 = "snd (kmap_local_page ?pg (log_event (Ev_read_merkle_tree_page ?pi
                (num_ra_pages (tree_params vi) max_ra level ?pi) True) s))"
  obtain r s3 where q: "is_hash_block_verified vi ?pg ?B ?s2 = (r, s3)"
    by (cases "is_hash_block_verified vi ?pg ?B ?s2") blast
  have s2: "pg_checked ?s2 = pg_checked s" "set_bit_events (trace ?s2) = set_bit_events (trace s)"
    by (simp_all add: kmap_local_page_def)
  note f = query_flag [OF q]
  from f(2) s2(1) have mono: "\<forall>p. pg_checked s p \<longrightarrow> pg_checked s3 p" by simp
  from f(3) s2(2) have ev: "set_bit_events (trace s3) = set_bit_events (trace s)" by simp
  from f(1) have fl: "hash_block_verified vi \<longrightarrow> pg_checked s3 ?pi" by simp
  show ?thesis
  proof (cases r)
    case True
    with Inr q mono ev show ?thesis
      by (simp add: ascend_level_def Let_def kmap_local_page_def split: prod.splits)
  next
    case False
    with Inr q mono ev fl show ?thesis
      by (simp add: ascend_level_def Let_def kmap_local_page_def split: prod.splits)
  qed
qed

lemma ascend_flags:
  assumes "ascend E inode vi max_ra level hidx hbs s = (r, hbs', s')"
    and "\<forall>hb\<in>set hbs. (hash_block_verified vi \<longrightarrow> pg_checked s (pg_index (hb_page hb))) \<and>
            pg_index (hb_page hb) = drop_bit (log_blocks_per_page (tree_params vi)) (hb_index hb)"
  shows "(\<forall>hb\<in>set hbs'. (hash_block_verified vi \<longrightarrow> pg_checked s' (pg_index (hb_page hb))) \<and>
            pg_index (hb_page hb) = drop_bit (log_blocks_per_page (tree_params vi)) (hb_index hb)) \<and>
         set_bit_events (trace s') = set_bit_events (trace s)"
  using assms
proof (induction E inode vi max_ra level hidx hbs s arbitrary: r hbs' s' rule: ascend.induct)
  case (1 E inode vi max_ra level hidx hblocks s)
  show ?case
  proof (cases "level < num_levels (tree_params vi)")
    case False
    with "1.prems"(1) have "hbs' = hblocks" "s' = s" by (simp_all add: ascend.simps)
    with "1.prems"(2) show ?thesis by blast
  next
    case True
    note lf = ascend_level_flags [where E = E and inode = inode and vi = vi and max_ra = max_ra
        and level = level and hidx = hidx and s = s]
    show ?thesis
    proof (cases "ascend_level E inode vi max_ra level hidx s")
      case (Read_failed s1)
      with True "1.prems"(1) have "hbs' = hblocks" "s' = s1" by (simp_all add: ascend.simps)
      with lf Read_failed "1.prems"(2) show ?thesis by auto
    next
      case (Already_verified w s1)
      with True "1.prems"(1) have "hbs' = hblocks" "s' = s1" by (simp_all add: ascend.simps)
      with lf Already_verified "1.prems"(2) show ?thesis by auto
    next
      case (Not_verified hb nh s1)
      with True "1.prems"(1) have rec: "ascend E inode vi max_ra (level + 1) nh (hb # hblocks) s1 = (r, hbs', s')"
        by (simp add: ascend.simps)
      from lf Not_verified "1.prems"(2)
      have pre: "\<forall>h\<in>set (hb # hblocks). (hash_block_verified vi \<longrightarrow> pg_checked s1 (pg_index (hb_page h))) \<and>
            pg_index (hb_page h) = drop_bit (log_blocks_per_page (tree_params vi)) (hb_index h)"
        and ev: "set_bit_events (trace s1) = set_bit_events (trace s)"
        by auto
      note ih = "1.IH" [OF True Not_verified rec pre]
      from ih [THEN conjunct2] ev have "set_bit_events (trace s') = set_bit_events (trace s)"
        by (rule trans)
      with ih [THEN conjunct1] show ?thesis by (rule conjI)
    qed
  qed
qed

lemma mark_calls_Cons:
  "mark_calls E vi want (hb # hbs) s =
     (if hashes_to E (tree_params vi) (v_bytes (hb_addr hb)) want
      then (hb, s) # mark_calls E vi
             (take (unat (digest_size (tree_params vi))) (v_bytes (view_add (hb_addr hb) (hb_hoffset hb))))
             hbs (put_page (hb_page hb) (kunmap_local (hb_addr hb)
                    (mark_verified vi (hb_page hb) (hb_index hb) s)))
      else [])"
  by (simp add: hashes_to_def Let_def split: prod.splits)

declare mark_calls.simps(2) [simp del]

lemma error_exit_set_bit_events [simp]:
  "set_bit_events (trace (error_exit hbs s)) = set_bit_events (trace s)"
  by (induction hbs arbitrary: s) simp_all

lemma descend_set_bit_events:
  assumes "hash_block_verified vi"
  shows "set_bit_events (trace (snd (descend E vi dblock want hbs s))) =
           set_bit_events (trace s) @ map (\<lambda>c. hb_index (fst c)) (mark_calls E vi want hbs s)"
proof (induction hbs arbitrary: want s)
  case Nil
  show ?case by (simp add: descend_Nil)
next
  case (Cons hb hbs)
  show ?case
    using assms by (simp add: descend_Cons mark_calls_Cons Cons mark_verified_fields)
qed

lemma error_exit_trace_extends:
  "\<exists>rest. trace (error_exit hbs s) = trace s @ rest"
proof (induction hbs arbitrary: s)
  case Nil
  show ?case by simp
next
  case (Cons hb hbs)
  from Cons [of "put_page (hb_page hb) (kunmap_local (hb_addr hb) s)"]
  obtain rest where "trace (error_exit hbs (put_page (hb_page hb) (kunmap_local (hb_addr hb) s))) =
      trace (put_page (hb_page hb) (kunmap_local (hb_addr hb) s)) @ rest" by blast
  then show ?case by simp
qed

lemma descend_trace_extends:
  "\<exists>rest. trace (snd (descend E vi dblock want hbs s)) = trace s @ rest"
proof (induction hbs arbitrary: want s)
  case Nil
  show ?case by (simp add: descend_Nil)
next
  case (Cons hb hbs)
  show ?case
  proof (cases "hashes_to E (tree_params vi) (v_bytes (hb_addr hb)) want")
    case True
    from Cons [of "take (unat (digest_size (tree_params vi))) (v_bytes (view_add (hb_addr hb) (hb_hoffset hb)))"
        "put_page (hb_page hb) (kunmap_local (hb_addr hb) (mark_verified vi (hb_page hb) (hb_index hb) s))"]
    show ?thesis using True by (auto simp: descend_Cons mark_verified_fields)
  next
    case False
    from error_exit_trace_extends [of "hb # hbs" s]
      error_exit_trace_extends [of "hb # hbs" "fsverity_err (Err_corrupted (pb_pos dblock) (int (length hbs))) s"]
    show ?thesis using False by (auto simp: descend_Cons)
  qed
qed

lemma mark_calls_at:
  assumes "hash_block_verified vi" and "(hb, t) \<in> set (mark_calls E vi want hbs s)"
  shows "hb \<in> set hbs \<and> pg_checked t = pg_checked s \<and>
         (\<exists>rest. trace (snd (descend E vi dblock want hbs s)) = trace t @ Ev_set_bit (hb_index hb) # rest)"
  using assms(2)
proof (induction hbs arbitrary: want s)
  case Nil
  then show ?case by simp
next
  case (Cons h hbs)
  let ?w = "take (unat (digest_size (tree_params vi))) (v_bytes (view_add (hb_addr h) (hb_hoffset h)))"
  let ?s2 = "put_page (hb_page h) (kunmap_local (hb_addr h) (mark_verified vi (hb_page h) (hb_index h) s))"
  from Cons.prems have ht: "hashes_to E (tree_params vi) (v_bytes (hb_addr h)) want"
    by (simp add: mark_calls_Cons split: if_splits)
  with Cons.prems consider "hb = h" "t = s" | "(hb, t) \<in> set (mark_calls E vi ?w hbs ?s2)"
    by (auto simp: mark_calls_Cons)
  then show ?case
  proof cases
    case 1
    from descend_trace_extends [of E vi dblock ?w hbs ?s2] obtain rest where
      "trace (snd (descend E vi dblock ?w hbs ?s2)) = trace ?s2 @ rest" by blast
    with 1 ht assms(1) show ?thesis by (simp add: descend_Cons mark_verified_fields)
  next
    case 2
    from Cons.IH [OF 2] ht assms(1) show ?thesis
      by (simp add: descend_Cons mark_verified_fields)
  qed
qed

text \<open>
  C5. With a bitmap, take any run of \<open>verify_data_block\<close>, from any state. The calls
  of the mark in the run are those of its \<open>set_bit\<close> events, in their order. Each call,
  for a block \<open>B\<close> held with its page, is made with the flag of that page set already:
  the ascent has queried the block before, the query leaves the flag set, and the page
  is held until after the mark. The call sets the bit of \<open>B\<close> and changes nothing else.
  So after every call of the mark the bit of \<open>B\<close> is set and the flag of its page is
  set.
\<close>

theorem mark_sets_bit_and_flag:
  assumes "hash_block_verified vi"
  shows "set_bit_events (trace (snd (verify_data_block E inode vi dblock max_ra s))) =
           set_bit_events (trace s) @
           map (\<lambda>c. hb_index (fst c)) (walk_mark_calls E inode vi dblock max_ra s) \<and>
         list_all (\<lambda>(hb, t).
             pg_index (hb_page hb) = drop_bit (log_blocks_per_page (tree_params vi)) (hb_index hb) \<and>
             (\<exists>rest. trace (snd (verify_data_block E inode vi dblock max_ra s)) =
                        trace t @ Ev_set_bit (hb_index hb) # rest) \<and>
             pg_checked t (pg_index (hb_page hb)) \<and>
             mark_verified vi (hb_page hb) (hb_index hb) t =
               t\<lparr>hbv_bitmap := (hbv_bitmap t)(hb_index hb := True),
                 trace := trace t @ [Ev_set_bit (hb_index hb)]\<rparr> \<and>
             hbv_bitmap (mark_verified vi (hb_page hb) (hb_index hb) t) (hb_index hb) \<and>
             pg_checked (mark_verified vi (hb_page hb) (hb_index hb) t) (pg_index (hb_page hb)))
           (walk_mark_calls E inode vi dblock max_ra s)"
proof (cases "pb_pos dblock < i_size inode")
  case False
  then show ?thesis
    by (simp add: verify_data_block_def walk_mark_calls_def not_less)
next
  case True
  obtain r hbs s1 where asc:
    "ascend E inode vi max_ra 0 (child_index (tree_params vi) (pb_pos dblock) 0) [] s = (r, hbs, s1)"
    by (cases "ascend E inode vi max_ra 0 (child_index (tree_params vi) (pb_pos dblock) 0) [] s") blast
  note vdb = verify_data_block_inside [OF True asc]
  from ascend_flags [OF asc] assms
  have held: "\<forall>hb\<in>set hbs. pg_checked s1 (pg_index (hb_page hb)) \<and>
            pg_index (hb_page hb) = drop_bit (log_blocks_per_page (tree_params vi)) (hb_index hb)"
    and ev: "set_bit_events (trace s1) = set_bit_events (trace s)" by auto
  show ?thesis
  proof (cases r)
    case None
    with True asc vdb ev show ?thesis
      by (simp add: walk_mark_calls_def child_index_0 not_le [symmetric])
  next
    case (Some want)
    with True asc have calls: "walk_mark_calls E inode vi dblock max_ra s = mark_calls E vi want hbs s1"
      by (simp add: walk_mark_calls_def child_index_0 not_le [symmetric])
    from Some vdb have run: "verify_data_block E inode vi dblock max_ra s = descend E vi dblock want hbs s1"
      by simp
    have m: "mark_verified vi pg B t =
               t\<lparr>hbv_bitmap := (hbv_bitmap t)(B := True), trace := trace t @ [Ev_set_bit B]\<rparr>" for pg B t
      using assms by (simp add: mark_verified_def set_bit_def log_event_def)
    have "list_all (\<lambda>(hb, t).
             pg_index (hb_page hb) = drop_bit (log_blocks_per_page (tree_params vi)) (hb_index hb) \<and>
             (\<exists>rest. trace (snd (descend E vi dblock want hbs s1)) =
                        trace t @ Ev_set_bit (hb_index hb) # rest) \<and>
             pg_checked t (pg_index (hb_page hb)) \<and>
             mark_verified vi (hb_page hb) (hb_index hb) t =
               t\<lparr>hbv_bitmap := (hbv_bitmap t)(hb_index hb := True),
                 trace := trace t @ [Ev_set_bit (hb_index hb)]\<rparr> \<and>
             hbv_bitmap (mark_verified vi (hb_page hb) (hb_index hb) t) (hb_index hb) \<and>
             pg_checked (mark_verified vi (hb_page hb) (hb_index hb) t) (pg_index (hb_page hb)))
           (mark_calls E vi want hbs s1)"
      unfolding list_all_iff
    proof (intro ballI, clarify)
      fix hb t assume c: "(hb, t) \<in> set (mark_calls E vi want hbs s1)"
      from mark_calls_at [OF assms c, of dblock] held
      have 1: "pg_index (hb_page hb) = drop_bit (log_blocks_per_page (tree_params vi)) (hb_index hb)"
        and 2: "pg_checked t (pg_index (hb_page hb))"
        and 3: "\<exists>rest. trace (snd (descend E vi dblock want hbs s1)) =
                        trace t @ Ev_set_bit (hb_index hb) # rest"
        by auto
      from 2 have 4: "hbv_bitmap (mark_verified vi (hb_page hb) (hb_index hb) t) (hb_index hb)"
        "pg_checked (mark_verified vi (hb_page hb) (hb_index hb) t) (pg_index (hb_page hb))"
        by (simp_all add: m)
      from 1 2 3 4 m [of "hb_page hb" "hb_index hb" t]
      show "pg_index (hb_page hb) = drop_bit (log_blocks_per_page (tree_params vi)) (hb_index hb) \<and>
             (\<exists>rest. trace (snd (descend E vi dblock want hbs s1)) =
                        trace t @ Ev_set_bit (hb_index hb) # rest) \<and>
             pg_checked t (pg_index (hb_page hb)) \<and>
             mark_verified vi (hb_page hb) (hb_index hb) t =
               t\<lparr>hbv_bitmap := (hbv_bitmap t)(hb_index hb := True),
                 trace := trace t @ [Ev_set_bit (hb_index hb)]\<rparr> \<and>
             hbv_bitmap (mark_verified vi (hb_page hb) (hb_index hb) t) (hb_index hb) \<and>
             pg_checked (mark_verified vi (hb_page hb) (hb_index hb) t) (pg_index (hb_page hb))"
        by (simp only: simp_thms)
    qed
    moreover from descend_set_bit_events [OF assms, of E dblock want hbs s1] ev
    have "set_bit_events (trace (snd (descend E vi dblock want hbs s1))) =
           set_bit_events (trace s) @ map (\<lambda>c. hb_index (fst c)) (mark_calls E vi want hbs s1)"
      by simp
    ultimately show ?thesis by (simp only: run calls simp_thms)
  qed
qed

theorem mark_sets_bit_and_flag_witness:
  "hash_block_verified ex_vi_bitmap \<and>
   \<not> pg_checked ex_state 0 \<and>
   set_bit_events (trace (snd (verify_data_block (ex_env 3) ex_inode_bitmap ex_vi_bitmap
       (ex_block 0 [65, 65, 65, 65] [5]) 0 ex_state))) = [0] \<and>
   pg_checked (snd (hd (walk_mark_calls (ex_env 3) ex_inode_bitmap ex_vi_bitmap
       (ex_block 0 [65, 65, 65, 65] [5]) 0 ex_state))) 0"
proof -
  let ?calls = "walk_mark_calls (ex_env 3) ex_inode_bitmap ex_vi_bitmap
       (ex_block 0 [65, 65, 65, 65] [5]) 0 ex_state"
  have h: "hash_block_verified ex_vi_bitmap" by (simp add: ex_vi_bitmap_def)
  have e: "\<not> pg_checked ex_state 0" "set_bit_events (trace ex_state) = []"
    by (simp_all add: ex_state_def)
  have c: "map (\<lambda>c. hb_index (fst c)) ?calls = [0]" by code_simp
  have p: "pg_index (hb_page (fst (hd ?calls))) = 0" by code_simp
  note t = mark_sets_bit_and_flag [OF h, of "ex_env 3" ex_inode_bitmap "ex_block 0 [65, 65, 65, 65] [5]" 0 ex_state]
  from c obtain x where x: "?calls = [x]" by auto
  from t [THEN conjunct2] x have "pg_checked (snd x) (pg_index (hb_page (fst x)))"
    unfolding list_all_iff by fastforce
  with p x have "pg_checked (snd (hd ?calls)) 0" by simp
  with h e t [THEN conjunct1] c show ?thesis by (simp only: simp_thms append_Nil)
qed

text \<open>
  C6. With a bitmap, of consistent sizes, and \<open>hpage\<close> the page on which block \<open>B\<close>
  resides: if the flag of the page is set, the query tests the flag, issues a read barrier
  and returns the bit of \<open>B\<close>, changing nothing; if the flag is clear, it clears
  the bits of exactly the blocks on the page, in ascending order, then issues a write
  barrier, then sets the flag, and returns false.
\<close>

theorem is_verified_bitmap_protocol:
  assumes "hash_block_verified vi"
    and "bitmap_params_ok (tree_params vi)"
    and "pg_index hpage = drop_bit (log_blocks_per_page (tree_params vi)) B"
  shows "is_hash_block_verified vi hpage B s =
           (if pg_checked s (pg_index hpage)
            then (hbv_bitmap s B,
                  s\<lparr>trace := trace s @ [Ev_PageChecked (pg_index hpage), Ev_smp_rmb, Ev_test_bit B]\<rparr>)
            else (False,
                  s\<lparr>pg_checked := (pg_checked s)(pg_index hpage := True),
                    hbv_bitmap := (\<lambda>b. hbv_bitmap s b \<and>
                       drop_bit (log_blocks_per_page (tree_params vi)) b \<noteq> pg_index hpage),
                    trace := trace s @ [Ev_PageChecked (pg_index hpage)] @
                       map (\<lambda>i. Ev_clear_bit
                              (push_bit (log_blocks_per_page (tree_params vi)) (pg_index hpage) + of_nat i))
                         [0..<2 ^ log_blocks_per_page (tree_params vi)] @
                       [Ev_smp_wmb, Ev_SetPageChecked (pg_index hpage)]\<rparr>))"
  using assms by (rule is_hash_block_verified_bitmap)

theorem is_verified_bitmap_protocol_witness:
  "(hash_block_verified ex_vi_bitmap \<and> bitmap_params_ok (tree_params ex_vi_bitmap) \<and>
    pg_index ex_page = drop_bit (log_blocks_per_page (tree_params ex_vi_bitmap)) 1) \<and>
   \<not> fst (is_hash_block_verified ex_vi_bitmap ex_page 1 ex_state) \<and>
   trace (snd (is_hash_block_verified ex_vi_bitmap ex_page 1 ex_state)) =
     [Ev_PageChecked 0, Ev_clear_bit 0, Ev_clear_bit 1, Ev_smp_wmb, Ev_SetPageChecked 0]"
proof -
  have h1: "hash_block_verified ex_vi_bitmap" by (simp add: ex_vi_bitmap_def)
  have h2: "bitmap_params_ok (tree_params ex_vi_bitmap)"
    by (simp add: ex_vi_bitmap_def ex_params_def bitmap_params_ok_def)
  have h3: "pg_index ex_page = drop_bit (log_blocks_per_page (tree_params ex_vi_bitmap)) 1"
    by (simp add: ex_vi_bitmap_def ex_params_def ex_page_def drop_bit_eq_div)
  have u: "[0..<2] = [0, 1]" by (simp add: upt_rec)
  show ?thesis
    using h1 h2 h3 is_verified_bitmap_protocol [OF h1 h2 h3, of ex_state]
    by (simp add: ex_state_def ex_page_def ex_vi_bitmap_def ex_params_def u)
qed

section \<open>Claims about the bio entry point\<close>

text \<open>
  C10. When \<open>fsverity_verify_bio\<close> returns, the bio is the one passed in if every
  segment was added and the final flush succeeded, and otherwise it is the one passed in
  with \<open>bi_status\<close> set to \<open>BLK_STS_IOERR\<close>; no other field changes.
\<close>

theorem verify_bio_status_frame:
  assumes "fsverity_verify_bio E b s = Some (b', s')"
  shows "\<exists>first len offset rest ok ctx1 s1.
           bi_folios b = (first, len, offset) # rest \<and>
           verify_bio_segments E (f_host first) b s = Some (ok, ctx1, s1) \<and>
           b' = (if ok then b else b\<lparr>bi_status := BLK_STS_IOERR\<rparr>)"
  using assms
  by (auto simp: fsverity_verify_bio_def split: list.splits option.splits bool.splits prod.splits)

theorem verify_bio_status_frame_witness:
  "\<exists>s'. fsverity_verify_bio (ex_env 2) (ex_bio ex_inode [65, 65, 65, 65, 66, 66, 66, 66]) ex_state
          = Some (ex_bio ex_inode [65, 65, 65, 65, 66, 66, 66, 66], s')"
proof -
  let ?b = "ex_bio ex_inode [65, 65, 65, 65, 66, 66, 66, 66]"
  have "case fsverity_verify_bio (ex_env 2) ?b ex_state of None \<Rightarrow> False | Some r \<Rightarrow> True"
    by code_simp
  then obtain b' s' where r: "fsverity_verify_bio (ex_env 2) ?b ex_state = Some (b', s')"
    by (auto split: option.splits)
  have seg: "case verify_bio_segments (ex_env 2) ex_inode ?b ex_state of
               None \<Rightarrow> False | Some r \<Rightarrow> fst r"
    by code_simp
  have f: "bi_folios ?b = [(ex_folio ex_inode [65, 65, 65, 65, 66, 66, 66, 66], 8, 0)]"
    by (simp add: ex_bio_def)
  have h: "f_host (ex_folio ex_inode [65, 65, 65, 65, 66, 66, 66, 66]) = ex_inode"
    by (simp add: ex_folio_def)
  from verify_bio_status_frame [OF r] seg f h have "b' = ?b"
    by (auto split: option.splits)
  with r show ?thesis by blast
qed

section \<open>The batching context: lemmas\<close>

subsection \<open>Resources of one walk\<close>

lemma ascend_resources:
  assumes "hidx = child_index (tree_params vi) pos level"
    and "ascend E inode vi max_ra level hidx hbs s = (r, hbs', s')"
  shows "(\<forall>p. pinned (trace s') p - held_pins hbs' p = pinned (trace s) p - held_pins hbs p) \<and>
         (\<forall>p. page_maps (trace s') p - held_maps hbs' p = page_maps (trace s) p - held_maps hbs p) \<and>
         data_maps (trace s') = data_maps (trace s)"
  using assms
proof (induction E inode vi max_ra level hidx hbs s arbitrary: r hbs' s' rule: ascend.induct)
  case (1 E inode vi max_ra level hidx hblocks s)
  let ?n = "num_levels (tree_params vi)"
  note hidx = "1.prems"(1)
  show ?case
  proof (cases "level < ?n")
    case False
    with "1.prems"(2) show ?thesis by (simp add: ascend.simps)
  next
    case True
    note lr = ascend_level_resources [OF hidx, where E = E and inode = inode and max_ra = max_ra and s = s]
    show ?thesis
    proof (cases "ascend_level E inode vi max_ra level hidx s")
      case (Read_failed s1)
      with True "1.prems"(2) have "hbs' = hblocks" "s' = s1" by (simp_all add: ascend.simps)
      with Read_failed lr show ?thesis by (simp add: same_resources_def)
    next
      case (Already_verified want s1)
      with True "1.prems"(2) have "hbs' = hblocks" "s' = s1" by (simp_all add: ascend.simps)
      with Already_verified lr show ?thesis by (simp add: same_resources_def)
    next
      case (Not_verified hb nh s1)
      from Not_verified ascend_level_path [OF hidx, where E = E and inode = inode and max_ra = max_ra and s = s]
      have nh: "nh = child_index (tree_params vi) pos (level + 1)" by simp
      from True Not_verified "1.prems"(2)
      have rec: "ascend E inode vi max_ra (level + 1) nh (hb # hblocks) s1 = (r, hbs', s')"
        by (simp add: ascend.simps)
      note IH = "1.IH" [OF True Not_verified nh rec]
      from Not_verified lr have l:
        "\<forall>p. pinned (trace s1) p = pinned (trace s) p + held_pins [hb] p"
        "\<forall>p. page_maps (trace s1) p = page_maps (trace s) p + held_maps [hb] p"
        "data_maps (trace s1) = data_maps (trace s)" by simp_all
      from IH have i1: "\<forall>p. pinned (trace s') p - held_pins hbs' p = pinned (trace s1) p - held_pins (hb # hblocks) p"
        and i2: "\<forall>p. page_maps (trace s') p - held_maps hbs' p = page_maps (trace s1) p - held_maps (hb # hblocks) p"
        and i3: "data_maps (trace s') = data_maps (trace s1)" by simp_all
      from i1 l(1) have "\<forall>p. pinned (trace s') p - held_pins hbs' p = pinned (trace s) p - held_pins hblocks p"
        by simp
      moreover from i2 l(2) have "\<forall>p. page_maps (trace s') p - held_maps hbs' p = page_maps (trace s) p - held_maps hblocks p"
        by simp
      ultimately show ?thesis using i3 l(3) by simp
    qed
  qed
qed

lemma verify_data_block_resources:
  "same_resources s (snd (verify_data_block E inode vi dblock max_ra s))"
proof (cases "pb_pos dblock < i_size inode")
  case False
  then show ?thesis
    by (simp add: verify_data_block_def same_resources_def fun_eq_iff not_less)
next
  case True
  let ?pos = "pb_pos dblock"
  obtain r hbs s1 where asc:
    "ascend E inode vi max_ra 0 (child_index (tree_params vi) ?pos 0) [] s = (r, hbs, s1)"
    by (cases "ascend E inode vi max_ra 0 (child_index (tree_params vi) ?pos 0) [] s") blast
  note vdb = verify_data_block_inside [OF True asc]
  from ascend_shape [OF refl _ asc] obtain k where
    hbs: "hbs = map (path_hb E inode (tree_params vi) ?pos) (rev [0..<k])"
    by auto
  from ascend_resources [OF refl asc]
  have a: "\<forall>p. pinned (trace s1) p - held_pins hbs p = pinned (trace s) p"
    "\<forall>p. page_maps (trace s1) p - held_pins hbs p = page_maps (trace s) p"
    "data_maps (trace s1) = data_maps (trace s)"
    by (simp_all add: hbs held_path)
  show ?thesis
  proof (cases r)
    case None
    with vdb have "snd (verify_data_block E inode vi dblock max_ra s) = error_exit hbs s1" by simp
    with a error_exit_resources [OF hbs, of s1] show ?thesis
      by (simp add: same_resources_def fun_eq_iff)
  next
    case (Some want)
    with vdb have "snd (verify_data_block E inode vi dblock max_ra s) = snd (descend E vi dblock want hbs s1)"
      by simp
    with a descend_resources [OF hbs, of E vi dblock want s1] show ?thesis
      by (simp add: same_resources_def fun_eq_iff)
  qed
qed

lemma verify_each_resources:
  "same_resources s (snd (verify_each E ctx js s))"
proof (induction js arbitrary: s)
  case Nil
  show ?case by simp
next
  case (Cons i js)
  let ?r = "verify_data_block E (ctx_inode ctx) (ctx_vi ctx) (pending_blocks ctx i) (max_ra_pages ctx) s"
  have 1: "same_resources s (snd ?r)" by (rule verify_data_block_resources)
  show ?case
  proof (cases "fst ?r")
    case True
    then have "verify_each E ctx (i # js) s = verify_each E ctx js (snd ?r)"
      by (cases ?r) simp
    with same_resources_trans [OF 1 Cons [of "snd ?r"]] show ?thesis by simp
  next
    case False
    then have "verify_each E ctx (i # js) s = (False, snd ?r)"
      by (cases ?r) simp
    with 1 show ?thesis by simp
  qed
qed

subsection \<open>The walk does not depend on the trace\<close>

lemma ascend_level_same_memo:
  assumes "same_memo s t"
  shows "case (ascend_level E inode vi max_ra level hidx s, ascend_level E inode vi max_ra level hidx t) of
           (Read_failed s', Read_failed t') \<Rightarrow> same_memo s' t'
         | (Already_verified w s', Already_verified w' t') \<Rightarrow> w = w' \<and> same_memo s' t'
         | (Not_verified hb nh s', Not_verified hb' nh' t') \<Rightarrow> hb = hb' \<and> nh = nh' \<and> same_memo s' t'
         | _ \<Rightarrow> False"
proof -
  let ?idx = "level_start (tree_params vi) ! level + drop_bit (log_arity (tree_params vi)) hidx"
  let ?pidx = "drop_bit (log_blocks_per_page (tree_params vi)) ?idx"
  let ?ra = "num_ra_pages (tree_params vi) max_ra level ?pidx"
  show ?thesis
  proof (cases "read_merkle_tree_page inode ?pidx")
    case (Inl e)
    with assms show ?thesis by (simp add: ascend_level_def Let_def)
  next
    case (Inr d)
    let ?pg = "\<lparr>pg_index = ?pidx, pg_data = d\<rparr>"
    let ?s2 = "log_event (Ev_kmap_local_page ?pidx) (log_event (Ev_read_merkle_tree_page ?pidx ?ra True) s)"
    let ?t2 = "log_event (Ev_kmap_local_page ?pidx) (log_event (Ev_read_merkle_tree_page ?pidx ?ra True) t)"
    from assms have "same_memo ?s2 ?t2" by simp
    note sm = is_hash_block_verified_same_memo [OF this, of vi ?pg ?idx]
    define b where "b = fst (is_hash_block_verified vi ?pg ?idx ?s2)"
    define s3 where "s3 = snd (is_hash_block_verified vi ?pg ?idx ?s2)"
    define t3 where "t3 = snd (is_hash_block_verified vi ?pg ?idx ?t2)"
    have iv: "is_hash_block_verified vi ?pg ?idx ?s2 = (b, s3)"
      "is_hash_block_verified vi ?pg ?idx ?t2 = (b, t3)" "same_memo s3 t3"
      using sm by (simp_all add: b_def s3_def t3_def prod_eq_iff)
    show ?thesis
      using Inr iv by (cases b) (simp_all add: ascend_level_def Let_def kmap_local_page_def)
  qed
qed

lemma ascend_same_memo:
  assumes "same_memo s t"
    and "ascend E inode vi max_ra level hidx hbs s = (r, hbs', s')"
  shows "\<exists>t'. ascend E inode vi max_ra level hidx hbs t = (r, hbs', t') \<and> same_memo s' t'"
  using assms
proof (induction E inode vi max_ra level hidx hbs s arbitrary: t rule: ascend.induct)
  case (1 E inode vi max_ra level hidx hblocks s)
  show ?case
  proof (cases "level < num_levels (tree_params vi)")
    case False
    with "1.prems" show ?thesis by (simp add: ascend.simps)
  next
    case True
    note lm = ascend_level_same_memo [OF "1.prems"(1), of E inode vi max_ra level hidx]
    show ?thesis
    proof (cases "ascend_level E inode vi max_ra level hidx s")
      case (Read_failed s1)
      with lm obtain t1 where "ascend_level E inode vi max_ra level hidx t = Read_failed t1"
        "same_memo s1 t1"
        by (cases "ascend_level E inode vi max_ra level hidx t") simp_all
      with True Read_failed "1.prems"(2) show ?thesis by (simp add: ascend.simps)
    next
      case (Already_verified w s1)
      with lm obtain t1 where "ascend_level E inode vi max_ra level hidx t = Already_verified w t1"
        "same_memo s1 t1"
        by (cases "ascend_level E inode vi max_ra level hidx t") simp_all
      with True Already_verified "1.prems"(2) show ?thesis by (simp add: ascend.simps)
    next
      case (Not_verified hb nh s1)
      with lm obtain t1 where t1: "ascend_level E inode vi max_ra level hidx t = Not_verified hb nh t1"
        "same_memo s1 t1"
        by (cases "ascend_level E inode vi max_ra level hidx t") simp_all
      from True Not_verified "1.prems"(2)
      have rec: "ascend E inode vi max_ra (level + 1) nh (hb # hblocks) s1 = (r, hbs', s')"
        by (simp add: ascend.simps)
      from "1.IH" [OF True Not_verified t1(2) rec] True t1(1) show ?thesis
        by (simp add: ascend.simps [of E inode vi max_ra level hidx hblocks t])
    qed
  qed
qed

lemma verify_data_block_same_memo:
  assumes "same_memo s t"
  shows "fst (verify_data_block E inode vi dblock max_ra s) = fst (verify_data_block E inode vi dblock max_ra t) \<and>
         same_memo (snd (verify_data_block E inode vi dblock max_ra s))
                   (snd (verify_data_block E inode vi dblock max_ra t))"
proof (cases "pb_pos dblock < i_size inode")
  case False
  with assms show ?thesis
    by (simp add: verify_data_block_def not_less)
next
  case True
  let ?pos = "pb_pos dblock"
  obtain r hbs s1 where asc:
    "ascend E inode vi max_ra 0 (child_index (tree_params vi) ?pos 0) [] s = (r, hbs, s1)"
    by (cases "ascend E inode vi max_ra 0 (child_index (tree_params vi) ?pos 0) [] s") blast
  from ascend_same_memo [OF assms asc] obtain t1 where asc':
    "ascend E inode vi max_ra 0 (child_index (tree_params vi) ?pos 0) [] t = (r, hbs, t1)"
    and m: "same_memo s1 t1" by blast
  note v = verify_data_block_inside [OF True asc] verify_data_block_inside [OF True asc']
  show ?thesis
  proof (cases r)
    case None
    with v m show ?thesis by simp
  next
    case (Some want)
    with v descend_same_memo [OF m, of E vi dblock want hbs] show ?thesis
      by (simp add: descend_result)
  qed
qed

subsection \<open>Alignment and the length counter\<close>

lemma aligned_dvd:
  fixes len offset :: u64
  assumes "k < 32" and "IS_ALIGNED (len OR offset) (2 ^ k)"
  shows "2 ^ k dvd unat len"
proof -
  have "(ucast (2 ^ k :: u32) :: u64) = 2 ^ k"
    using assms(1) by (intro bit_eqI) (auto simp: bit_simps)
  with assms(2) have "(len OR offset) AND (2 ^ k - 1) = 0" by (simp add: IS_ALIGNED_def)
  then have "take_bit k (len OR offset) = 0"
    by (simp add: take_bit_eq_mask mask_eq_exp_minus_1)
  then have "take_bit k len = 0" by (simp add: or_eq_0_iff)
  then have "take_bit k (unat len) = 0" by (simp flip: unsigned_take_bit_eq)
  then show ?thesis by (simp add: take_bit_eq_mod mod_eq_0_iff_dvd)
qed

lemma unat_pow2_u64: "k < 64 \<Longrightarrow> unat (2 ^ k :: u64) = 2 ^ k"
proof -
  assume k: "k < 64"
  have "(2 ^ k :: u64) = of_nat (2 ^ k)" by simp
  then have "unat (2 ^ k :: u64) = (2 ^ k) mod 2 ^ 64"
    by (simp only: unat_of_nat) simp
  moreover have "(2::nat) ^ k < 2 ^ 64" using k by (rule power_strict_increasing) simp
  ultimately show ?thesis by simp
qed

lemma len_step:
  fixes len :: u64
  assumes "k < 32" and "len \<noteq> 0" and "2 ^ k dvd unat len"
  shows "unat (len - 2 ^ k) < unat len" and "2 ^ k dvd unat (len - 2 ^ k)"
proof -
  from assms(1) have u: "unat (2 ^ k :: u64) = 2 ^ k" by (simp add: unat_pow2_u64)
  from assms(2) have "0 < unat len" by (simp add: unat_gt_0)
  with assms(3) have ge: "2 ^ k \<le> unat len" by (auto dest: dvd_imp_le)
  then have "(2 ^ k :: u64) \<le> len" by (simp add: word_le_nat_alt u)
  then have s: "unat (len - 2 ^ k) = unat len - 2 ^ k" by (simp add: unat_sub u)
  have "0 < (2::nat) ^ k" by simp
  with s ge show "unat (len - 2 ^ k) < unat len" by linarith
  from s ge assms(3) show "2 ^ k dvd unat (len - 2 ^ k)" by simp
qed

subsection \<open>Releasing the pending blocks\<close>

lemma clear_loop_snd:
  "snd (clear_loop m ctx s) =
     s\<lparr>trace := trace s @
         map (\<lambda>i. Ev_kunmap_local (v_addr (pb_data (pending_blocks ctx i)))) (rev [0..<m])\<rparr>"
proof (induction m arbitrary: ctx s)
  case 0
  show ?case by simp
next
  case (Suc m)
  show ?case by (simp add: Suc kunmap_local_def log_event_def)
qed

lemma clear_loop_fst:
  "fst (clear_loop m ctx s) =
     ctx\<lparr>pending_blocks :=
           (\<lambda>i. if i < m then (pending_blocks ctx i)\<lparr>pb_data := null_view\<rparr>
                else pending_blocks ctx i)\<rparr>"
proof (induction m arbitrary: ctx s)
  case 0
  show ?case by simp
next
  case (Suc m)
  show ?case by (simp add: Suc fun_eq_iff less_Suc_eq cong: if_cong)
qed

lemma fsverity_clear_pending_blocks_eq:
  "fsverity_clear_pending_blocks ctx s =
     (ctx\<lparr>pending_blocks :=
           (\<lambda>i. if i < num_pending ctx then (pending_blocks ctx i)\<lparr>pb_data := null_view\<rparr>
                else pending_blocks ctx i),
          num_pending := 0\<rparr>,
      s\<lparr>trace := trace s @
         map (\<lambda>i. Ev_kunmap_local (v_addr (pb_data (pending_blocks ctx i))))
           (rev [0..<num_pending ctx])\<rparr>)"
  using clear_loop_fst [of "num_pending ctx" ctx s] clear_loop_snd [of "num_pending ctx" ctx s]
  by (cases "clear_loop (num_pending ctx) ctx s") (simp add: fsverity_clear_pending_blocks_def)

lemma unmap_events:
  "pinned (map (\<lambda>i. Ev_kunmap_local (f i)) js) p = 0"
  "page_maps (map (\<lambda>i. Ev_kunmap_local (f i)) js) p = - sum_list (map (\<lambda>i. unmap_page_delta p (f i)) js)"
  "data_maps (map (\<lambda>i. Ev_kunmap_local (f i)) js) k = - sum_list (map (\<lambda>i. unmap_data_delta k (f i)) js)"
  by (induction js) simp_all

lemma resources_rev:
  "pinned (rev tr) p = pinned tr p"
  "page_maps (rev tr) p = page_maps tr p"
  "data_maps (rev tr) k = data_maps tr k"
  by (induction tr) simp_all

lemma sum_list_map_rev:
  fixes f :: "'a \<Rightarrow> int"
  shows "sum_list (map f (rev xs)) = sum_list (map f xs)"
  by (induction xs) simp_all

lemma folio_no_page: "a = Folio_addr fi off \<Longrightarrow> unmap_page_delta p a = 0"
  by simp

lemma pending_no_pages:
  assumes "pending_ok ctx"
  shows "sum_list (map (\<lambda>i. unmap_page_delta p (v_addr (pb_data (pending_blocks ctx i))))
           (rev [0..<num_pending ctx])) = 0"
proof -
  have "map (\<lambda>i. unmap_page_delta p (v_addr (pb_data (pending_blocks ctx i)))) (rev [0..<num_pending ctx])
      = map (\<lambda>i. 0) (rev [0..<num_pending ctx])"
    using assms by (intro map_cong) (auto simp: pending_ok_def)
  then show ?thesis by (simp only: sum_list_0)
qed

lemma clear_holds_views:
  assumes "holds_views base ctx s"
    and "fsverity_clear_pending_blocks ctx s = (ctx', s')"
  shows "pinned (trace s') = pinned base \<and> page_maps (trace s') = page_maps base \<and>
         data_maps (trace s') = data_maps base \<and> num_pending ctx' = 0"
proof -
  from assms(1) have ok: "pending_ok ctx" and p: "pinned (trace s) = pinned base"
    and m: "page_maps (trace s) = page_maps base"
    and d: "\<forall>k. data_maps (trace s) k = data_maps base k + pending_maps ctx k"
    by (simp_all add: holds_views_def)
  from assms(2) have s': "trace s' = trace s @
         map (\<lambda>i. Ev_kunmap_local (v_addr (pb_data (pending_blocks ctx i)))) (rev [0..<num_pending ctx])"
    and n: "num_pending ctx' = 0"
    by (auto simp: fsverity_clear_pending_blocks_eq)
  have "pinned (trace s') q = pinned base q" for q
    by (simp add: s' resources_rev unmap_events p)
  moreover have "page_maps (trace s') q = page_maps base q" for q
    using pending_no_pages [OF ok, of q]
    by (simp add: s' resources_rev unmap_events m sum_list_map_rev)
  moreover have "data_maps (trace s') k = data_maps base k" for k
  proof -
    from d have "data_maps (trace s) k = data_maps base k + pending_maps ctx k" by blast
    then show ?thesis
      by (simp add: s' resources_rev unmap_events pending_maps_def sum_list_map_rev)
  qed
  ultimately show ?thesis using n by (simp add: fun_eq_iff)
qed

subsection \<open>The flush\<close>

lemma store_real_hashes_fields [simp]:
  "num_pending (store_real_hashes ctx hs) = num_pending ctx"
  "ctx_vi (store_real_hashes ctx hs) = ctx_vi ctx"
  "ctx_inode (store_real_hashes ctx hs) = ctx_inode ctx"
  "max_ra_pages (store_real_hashes ctx hs) = max_ra_pages ctx"
  "pb_data (pending_blocks (store_real_hashes ctx hs) i) = pb_data (pending_blocks ctx i)"
  "pb_pos (pending_blocks (store_real_hashes ctx hs) i) = pb_pos (pending_blocks ctx i)"
  by (simp_all add: store_real_hashes_def)

lemma store_real_hashes_views [simp]:
  "pending_ok (store_real_hashes ctx hs) = pending_ok ctx"
  "pending_maps (store_real_hashes ctx hs) = pending_maps ctx"
  "holds_views base (store_real_hashes ctx hs) s = holds_views base ctx s"
  by (simp_all add: pending_ok_def pending_maps_def holds_views_def fun_eq_iff)

lemma flush_cases [case_names empty import_failed hash_failed walk_failed ok]:
  obtains "num_pending ctx = 0" and "fsverity_verify_pending_blocks E ctx s = (True, ctx, s)"
  | "0 < num_pending ctx" and "shash_prepare E (tree_params (ctx_vi ctx)) \<noteq> 0"
      and "fsverity_verify_pending_blocks E ctx s =
             (False, ctx, fsverity_err (Err_importing_hash_state
                            (shash_prepare E (tree_params (ctx_vi ctx)))) s)"
  | err hs where "0 < num_pending ctx" and "shash_prepare E (tree_params (ctx_vi ctx)) = 0"
      and "crypto_shash_finup_mb E (hashstate (tree_params (ctx_vi ctx)))
             (map (\<lambda>i. v_bytes (pb_data (pending_blocks ctx i))) [0..<num_pending ctx])
             (unat (block_size (tree_params (ctx_vi ctx)))) = (err, hs)"
      and "err \<noteq> 0"
      and "fsverity_verify_pending_blocks E ctx s =
             (False, ctx, fsverity_err (Err_computing_block_hashes err) s)"
  | hs s1 where "0 < num_pending ctx" and "shash_prepare E (tree_params (ctx_vi ctx)) = 0"
      and "crypto_shash_finup_mb E (hashstate (tree_params (ctx_vi ctx)))
             (map (\<lambda>i. v_bytes (pb_data (pending_blocks ctx i))) [0..<num_pending ctx])
             (unat (block_size (tree_params (ctx_vi ctx)))) = (0, hs)"
      and "verify_each E (store_real_hashes ctx hs) [0..<num_pending ctx] s = (False, s1)"
      and "fsverity_verify_pending_blocks E ctx s = (False, store_real_hashes ctx hs, s1)"
  | hs s1 where "0 < num_pending ctx" and "shash_prepare E (tree_params (ctx_vi ctx)) = 0"
      and "crypto_shash_finup_mb E (hashstate (tree_params (ctx_vi ctx)))
             (map (\<lambda>i. v_bytes (pb_data (pending_blocks ctx i))) [0..<num_pending ctx])
             (unat (block_size (tree_params (ctx_vi ctx)))) = (0, hs)"
      and "verify_each E (store_real_hashes ctx hs) [0..<num_pending ctx] s = (True, s1)"
      and "fsverity_verify_pending_blocks E ctx s =
             (True, fst (fsverity_clear_pending_blocks (store_real_hashes ctx hs) s1),
              snd (fsverity_clear_pending_blocks (store_real_hashes ctx hs) s1))"
proof (cases "num_pending ctx = 0")
  case True
  then have "fsverity_verify_pending_blocks E ctx s = (True, ctx, s)"
    by (simp add: fsverity_verify_pending_blocks_def)
  with True that(1) show ?thesis by blast
next
  case n: False
  show ?thesis
  proof (cases "shash_prepare E (tree_params (ctx_vi ctx)) = 0")
    case False
    with n have "fsverity_verify_pending_blocks E ctx s =
             (False, ctx, fsverity_err (Err_importing_hash_state
                            (shash_prepare E (tree_params (ctx_vi ctx)))) s)"
      by (simp add: fsverity_verify_pending_blocks_def Let_def)
    with n False that(2) show ?thesis by simp
  next
    case prep: True
    obtain err hs where mb: "crypto_shash_finup_mb E (hashstate (tree_params (ctx_vi ctx)))
             (map (\<lambda>i. v_bytes (pb_data (pending_blocks ctx i))) [0..<num_pending ctx])
             (unat (block_size (tree_params (ctx_vi ctx)))) = (err, hs)"
      by (cases "crypto_shash_finup_mb E (hashstate (tree_params (ctx_vi ctx)))
             (map (\<lambda>i. v_bytes (pb_data (pending_blocks ctx i))) [0..<num_pending ctx])
             (unat (block_size (tree_params (ctx_vi ctx))))") blast
    show ?thesis
    proof (cases "err = 0")
      case False
      with n prep mb have "fsverity_verify_pending_blocks E ctx s =
             (False, ctx, fsverity_err (Err_computing_block_hashes err) s)"
        by (simp add: fsverity_verify_pending_blocks_def Let_def)
      with n prep mb False that(3) show ?thesis by simp
    next
      case True
      obtain b s1 where ve: "verify_each E (store_real_hashes ctx hs) [0..<num_pending ctx] s = (b, s1)"
        by (cases "verify_each E (store_real_hashes ctx hs) [0..<num_pending ctx] s") blast
      show ?thesis
      proof (cases b)
        case False
        with n prep mb True ve have "fsverity_verify_pending_blocks E ctx s =
            (False, store_real_hashes ctx hs, s1)"
          by (simp add: fsverity_verify_pending_blocks_def Let_def)
        with n prep mb True ve False that(4) show ?thesis by simp
      next
        case b: True
        with n prep mb True ve have "fsverity_verify_pending_blocks E ctx s =
             (True, fst (fsverity_clear_pending_blocks (store_real_hashes ctx hs) s1),
              snd (fsverity_clear_pending_blocks (store_real_hashes ctx hs) s1))"
          by (simp add: fsverity_verify_pending_blocks_def Let_def split: prod.splits)
        with n prep mb True ve b that(5) show ?thesis by simp
      qed
    qed
  qed
qed

lemma holds_views_resources:
  "holds_views base ctx s \<Longrightarrow> same_resources s s' \<Longrightarrow> holds_views base ctx s'"
  by (simp add: holds_views_def same_resources_def)

lemma flush_holds_views:
  assumes hv: "holds_views base ctx s"
    and fl: "fsverity_verify_pending_blocks E ctx s = (ok, ctx', s')"
  shows "holds_views base ctx' s' \<and> ctx_vi ctx' = ctx_vi ctx \<and>
         (ok \<longrightarrow> num_pending ctx' = 0) \<and> (\<not> ok \<longrightarrow> num_pending ctx' = num_pending ctx)"
proof (cases rule: flush_cases [of ctx E s])
  case empty
  with hv fl show ?thesis by simp
next
  case import_failed
  with hv fl show ?thesis
    by (auto intro: holds_views_resources simp: same_resources_def fun_eq_iff)
next
  case (hash_failed err hs)
  with hv fl show ?thesis
    by (auto intro: holds_views_resources simp: same_resources_def fun_eq_iff)
next
  case (walk_failed hs s1)
  from verify_each_resources [of s E "store_real_hashes ctx hs" "[0..<num_pending ctx]"] walk_failed(4)
  have "same_resources s s1" by simp
  with hv have "holds_views base (store_real_hashes ctx hs) s1"
    by (simp add: holds_views_resources)
  with walk_failed(5) fl show ?thesis by simp
next
  case (ok hs s1)
  from verify_each_resources [of s E "store_real_hashes ctx hs" "[0..<num_pending ctx]"] ok(4)
  have "same_resources s s1" by simp
  with hv have h1: "holds_views base (store_real_hashes ctx hs) s1"
    by (simp add: holds_views_resources)
  obtain c2 s2 where cl: "fsverity_clear_pending_blocks (store_real_hashes ctx hs) s1 = (c2, s2)"
    by (cases "fsverity_clear_pending_blocks (store_real_hashes ctx hs) s1") blast
  from clear_holds_views [OF h1 cl]
  have r: "pinned (trace s2) = pinned base" "page_maps (trace s2) = page_maps base"
    "data_maps (trace s2) = data_maps base" "num_pending c2 = 0" by simp_all
  from cl have vi: "ctx_vi c2 = ctx_vi ctx" by (auto simp: fsverity_clear_pending_blocks_eq)
  from r have "holds_views base c2 s2"
    by (simp add: holds_views_def pending_ok_def pending_maps_def)
  with ok(5) fl cl r(4) vi show ?thesis by simp
qed

subsection \<open>Adding data blocks\<close>

lemma push_pending_maps:
  "pending_maps (ctx\<lparr>pending_blocks := (pending_blocks ctx)(num_pending ctx := blk),
                     num_pending := num_pending ctx + 1\<rparr>) k =
     pending_maps ctx k + unmap_data_delta k (v_addr (pb_data blk))"
proof -
  have "sum_list (map (\<lambda>i. unmap_data_delta k (v_addr (pb_data (((pending_blocks ctx)(num_pending ctx := blk)) i))))
          [0..<num_pending ctx]) =
        sum_list (map (\<lambda>i. unmap_data_delta k (v_addr (pb_data (pending_blocks ctx i)))) [0..<num_pending ctx])"
    by (intro arg_cong [where f = sum_list] map_cong) simp_all
  then show ?thesis by (simp add: pending_maps_def)
qed

lemma push_pending_ok:
  assumes "pending_ok ctx" and "v_addr (pb_data blk) = Folio_addr fi off"
  shows "pending_ok (ctx\<lparr>pending_blocks := (pending_blocks ctx)(num_pending ctx := blk),
                         num_pending := num_pending ctx + 1\<rparr>)"
  using assms by (auto simp: pending_ok_def less_Suc_eq)

lemma push_holds_views:
  assumes hv: "holds_views base ctx s"
  shows "holds_views base
           (ctx\<lparr>pending_blocks := (pending_blocks ctx)(num_pending ctx :=
                   (pending_blocks ctx (num_pending ctx))
                     \<lparr>pb_data := fst (kmap_local_folio fol offset s), pb_pos := q\<rparr>),
                 num_pending := num_pending ctx + 1\<rparr>)
           (snd (kmap_local_folio fol offset s))"
proof -
  let ?blk = "(pending_blocks ctx (num_pending ctx))
                     \<lparr>pb_data := fst (kmap_local_folio fol offset s), pb_pos := q\<rparr>"
  from hv have ok: "pending_ok ctx" and p: "pinned (trace s) = pinned base"
    and m: "page_maps (trace s) = page_maps base"
    and d: "\<forall>k. data_maps (trace s) k = data_maps base k + pending_maps ctx k"
    by (simp_all add: holds_views_def)
  have addr: "v_addr (pb_data ?blk) = Folio_addr (f_index fol) offset"
    by (simp add: kmap_local_folio_def)
  have tr: "trace (snd (kmap_local_folio fol offset s)) =
      trace s @ [Ev_kmap_local_folio (f_index fol) offset]"
    by (simp add: kmap_local_folio_def)
  have "data_maps (trace (snd (kmap_local_folio fol offset s))) k =
        data_maps base k + pending_maps (ctx\<lparr>pending_blocks := (pending_blocks ctx)(num_pending ctx := ?blk),
                 num_pending := num_pending ctx + 1\<rparr>) k" for k
  proof -
    from d have "data_maps (trace s) k = data_maps base k + pending_maps ctx k" by blast
    then show ?thesis
      by (cases k) (simp only: push_pending_maps addr tr, simp)
  qed
  moreover have "pinned (trace (snd (kmap_local_folio fol offset s))) = pinned base"
    using p by (simp add: tr fun_eq_iff)
  moreover have "page_maps (trace (snd (kmap_local_folio fol offset s))) = page_maps base"
    using m by (simp add: tr fun_eq_iff)
  moreover note push_pending_ok [OF ok addr]
  ultimately show ?thesis by (simp only: holds_views_def simp_thms)
qed

lemma add_loop_returns:
  assumes "block_params_ok (tree_params (ctx_vi ctx))"
    and "holds_views base ctx s"
    and "len \<noteq> 0"
    and "2 ^ log_blocksize (tree_params (ctx_vi ctx)) dvd unat len"
  shows "\<exists>ok ctx' s'. add_loop E ctx fol pos len offset s = Some (ok, ctx', s') \<and>
           holds_views base ctx' s' \<and> ctx_vi ctx' = ctx_vi ctx"
  using assms
proof (induction "unat len" arbitrary: len ctx offset s rule: less_induct)
  case less
  let ?params = "tree_params (ctx_vi ctx)"
  let ?k = "log_blocksize ?params"
  let ?ctx1 = "ctx\<lparr>pending_blocks := (pending_blocks ctx)(num_pending ctx :=
                   (pending_blocks ctx (num_pending ctx))
                     \<lparr>pb_data := fst (kmap_local_folio fol offset s), pb_pos := pos + offset\<rparr>),
                 num_pending := num_pending ctx + 1\<rparr>"
  let ?s1 = "snd (kmap_local_folio fol offset s)"
  let ?r = "if int (num_pending ctx + 1) = mb_max_msgs ?params
            then fsverity_verify_pending_blocks E ?ctx1 ?s1 else (True, ?ctx1, ?s1)"
  from less.prems(1) have k: "?k < 32" and bs: "block_size ?params = 2 ^ ?k"
    by (simp_all add: block_params_ok_def)
  have uc: "(ucast (block_size ?params) :: u64) = 2 ^ ?k"
    using k by (simp only: bs) (intro bit_eqI, auto simp: bit_simps)
  have h1: "holds_views base ?ctx1 ?s1" by (rule push_holds_views [OF less.prems(2)])
  have vi1: "ctx_vi ?ctx1 = ctx_vi ctx" by simp
  obtain ok c2 s2 where r: "?r = (ok, c2, s2)" by (cases ?r) blast
  have h2: "holds_views base c2 s2 \<and> ctx_vi c2 = ctx_vi ctx"
  proof (cases "int (num_pending ctx + 1) = mb_max_msgs ?params")
    case True
    with r have "fsverity_verify_pending_blocks E ?ctx1 ?s1 = (ok, c2, s2)" by simp
    from flush_holds_views [OF h1 this] vi1 show ?thesis by simp
  next
    case False
    with r h1 show ?thesis by auto
  qed
  have step: "add_loop E ctx fol pos len offset s =
      (if \<not> ok then Some (ok, c2, s2)
       else if len - 2 ^ ?k \<noteq> 0 then add_loop E c2 fol pos (len - 2 ^ ?k) (offset + 2 ^ ?k) s2
       else Some (ok, c2, s2))"
    by (subst add_loop.simps) (simp only: Let_def uc r fst_conv snd_conv)
  show ?case
  proof (cases "ok \<and> len - 2 ^ ?k \<noteq> 0")
    case False
    with step h2 show ?thesis by auto
  next
    case True
    from len_step [OF k less.prems(3,4)]
    have lt: "unat (len - 2 ^ ?k) < unat len" and dv: "2 ^ ?k dvd unat (len - 2 ^ ?k)" by simp_all
    from h2 less.prems(1) have bp: "block_params_ok (tree_params (ctx_vi c2))" by simp
    from h2 dv have dv': "2 ^ log_blocksize (tree_params (ctx_vi c2)) dvd unat (len - 2 ^ ?k)" by simp
    from True have ne: "len - 2 ^ ?k \<noteq> 0" by simp
    from h2 have hv: "holds_views base c2 s2" by simp
    from less.hyps [OF lt bp hv ne dv', of "offset + 2 ^ ?k"] h2 True step
    show ?thesis by auto
  qed
qed

lemma add_data_blocks_returns:
  assumes bp: "block_params_ok (tree_params (ctx_vi ctx))"
    and hv: "holds_views base ctx s"
  shows "\<exists>ok ctx' s'. fsverity_add_data_blocks E ctx fol len offset s = Some (ok, ctx', s') \<and>
           holds_views base ctx' s' \<and> ctx_vi ctx' = ctx_vi ctx"
proof (cases "len = 0 \<or> \<not> IS_ALIGNED (len OR offset) (block_size (tree_params (ctx_vi ctx))) \<or>
              \<not> f_locked fol \<or> f_uptodate fol")
  case True
  then have "fsverity_add_data_blocks E ctx fol len offset s = Some (False, ctx, s)"
    by (auto simp: fsverity_add_data_blocks_def Let_def)
  with hv show ?thesis by auto
next
  case False
  then have eq: "fsverity_add_data_blocks E ctx fol len offset s =
      add_loop E ctx fol (push_bit (PAGE_SHIFT E) (f_index fol)) len offset s"
    by (auto simp: fsverity_add_data_blocks_def Let_def)
  from bp have k: "log_blocksize (tree_params (ctx_vi ctx)) < 32"
    and bs: "block_size (tree_params (ctx_vi ctx)) = 2 ^ log_blocksize (tree_params (ctx_vi ctx))"
    by (simp_all add: block_params_ok_def)
  from False bs have "IS_ALIGNED (len OR offset) (2 ^ log_blocksize (tree_params (ctx_vi ctx)))"
    by simp
  from aligned_dvd [OF k this] have dv: "2 ^ log_blocksize (tree_params (ctx_vi ctx)) dvd unat len" .
  from False have "len \<noteq> 0" by simp
  from add_loop_returns [OF bp hv this dv] eq show ?thesis by simp
qed

lemma add_folios_returns:
  assumes "block_params_ok (tree_params (ctx_vi ctx))"
    and "holds_views base ctx s"
  shows "\<exists>ok ctx' s'. add_folios E ctx segs s = Some (ok, ctx', s') \<and>
           holds_views base ctx' s' \<and> ctx_vi ctx' = ctx_vi ctx"
  using assms
proof (induction segs arbitrary: ctx s)
  case Nil
  then show ?case by auto
next
  case (Cons seg segs)
  obtain fol len offset where seg: "seg = (fol, len, offset)" by (cases seg) auto
  from add_data_blocks_returns [OF Cons.prems, of E fol len offset]
  obtain ok c1 s1 where a: "fsverity_add_data_blocks E ctx fol len offset s = Some (ok, c1, s1)"
    "holds_views base c1 s1" "ctx_vi c1 = ctx_vi ctx" by blast
  show ?case
  proof (cases ok)
    case False
    with a seg show ?thesis by auto
  next
    case True
    from a(3) Cons.prems(1) have "block_params_ok (tree_params (ctx_vi c1))" by simp
    from Cons.IH [OF this a(2)] a True seg show ?thesis by simp
  qed
qed

lemma init_holds_views:
  "holds_views (trace s) (fsverity_init_verification_context inode max_ra) s"
  by (simp add: holds_views_def fsverity_init_verification_context_def pending_ok_def
      pending_maps_def)

lemma finish_context:
  assumes hv: "holds_views (trace s) ctx s1"
  shows "same_resources s (snd (fsverity_clear_pending_blocks ctx s1))"
    and "fsverity_verify_pending_blocks E ctx s1 = (ok, c2, s2) \<Longrightarrow> ok \<Longrightarrow> same_resources s s2"
    and "fsverity_verify_pending_blocks E ctx s1 = (ok, c2, s2) \<Longrightarrow>
           same_resources s (snd (fsverity_clear_pending_blocks c2 s2))"
proof -
  show "same_resources s (snd (fsverity_clear_pending_blocks ctx s1))"
    using clear_holds_views [OF hv, of "fst (fsverity_clear_pending_blocks ctx s1)"
        "snd (fsverity_clear_pending_blocks ctx s1)"]
    by (simp add: same_resources_def)
next
  assume fl: "fsverity_verify_pending_blocks E ctx s1 = (ok, c2, s2)"
  from flush_holds_views [OF hv fl] have h2: "holds_views (trace s) c2 s2"
    and n: "ok \<longrightarrow> num_pending c2 = 0" by simp_all
  show "same_resources s (snd (fsverity_clear_pending_blocks c2 s2))"
    using clear_holds_views [OF h2, of "fst (fsverity_clear_pending_blocks c2 s2)"
        "snd (fsverity_clear_pending_blocks c2 s2)"]
    by (simp add: same_resources_def)
  assume ok
  with n have "num_pending c2 = 0" by simp
  with h2 show "same_resources s s2"
    by (simp add: holds_views_def same_resources_def pending_maps_def fun_eq_iff)
qed

lemma verify_blocks_no_leak:
  assumes "block_params_ok (tree_params (i_verity_info (f_host fol)))"
  shows "\<exists>r s'. fsverity_verify_blocks E fol len offset s = Some (r, s') \<and> same_resources s s'"
proof -
  let ?ctx = "fsverity_init_verification_context (f_host fol) 0"
  from assms have bp: "block_params_ok (tree_params (ctx_vi ?ctx))"
    by (simp add: fsverity_init_verification_context_def)
  from add_data_blocks_returns [OF bp init_holds_views, of E fol len offset s]
  obtain ok c1 s1 where a: "fsverity_add_data_blocks E ?ctx fol len offset s = Some (ok, c1, s1)"
    and hv: "holds_views (trace s) c1 s1" by blast
  note fin = finish_context [OF hv]
  show ?thesis
  proof (cases ok)
    case False
    with a fin(1) show ?thesis by (auto simp: fsverity_verify_blocks_def)
  next
    case True
    obtain ok2 c2 s2 where fl: "fsverity_verify_pending_blocks E c1 s1 = (ok2, c2, s2)"
      by (cases "fsverity_verify_pending_blocks E c1 s1") auto
    with a True fin(2) [OF fl] fin(3) [OF fl] show ?thesis
      by (cases ok2) (auto simp: fsverity_verify_blocks_def)
  qed
qed

lemma verify_bio_no_leak:
  assumes "bi_folios b = (first, len, offset) # rest"
    and "block_params_ok (tree_params (i_verity_info (f_host first)))"
  shows "\<exists>b' s'. fsverity_verify_bio E b s = Some (b', s') \<and> same_resources s s'"
proof -
  let ?ctx = "fsverity_init_verification_context (f_host first) (bio_max_ra_pages E b)"
  from assms(2) have bp: "block_params_ok (tree_params (ctx_vi ?ctx))"
    by (simp add: fsverity_init_verification_context_def)
  from add_folios_returns [OF bp init_holds_views, of E "bi_folios b" s]
  obtain ok c1 s1 where a: "add_folios E ?ctx (bi_folios b) s = Some (ok, c1, s1)"
    and hv: "holds_views (trace s) c1 s1" by blast
  note fin = finish_context [OF hv]
  show ?thesis
  proof (cases ok)
    case False
    with a fin(1) assms(1) show ?thesis
      by (auto simp: fsverity_verify_bio_def verify_bio_segments_def)
  next
    case True
    obtain ok2 c2 s2 where fl: "fsverity_verify_pending_blocks E c1 s1 = (ok2, c2, s2)"
      by (cases "fsverity_verify_pending_blocks E c1 s1") auto
    with a True fin(2) [OF fl] fin(3) [OF fl] assms(1) show ?thesis
      by (cases ok2) (auto simp: fsverity_verify_bio_def verify_bio_segments_def)
  qed
qed

subsection \<open>The batch against single blocks\<close>

lemma finup_mb_fst:
  "fst (crypto_shash_finup_mb E st data len) = 0 \<longleftrightarrow>
     (\<forall>d \<in> set data. fst (crypto_shash_finup E st (take len d)) = 0)"
proof (cases "filter (\<lambda>r. fst r \<noteq> 0) (map (\<lambda>d. crypto_shash_finup E st (take len d)) data)")
  case Nil
  then have "\<forall>r \<in> set (map (\<lambda>d. crypto_shash_finup E st (take len d)) data). fst r = 0"
    by (simp add: filter_empty_conv)
  with Nil show ?thesis by (simp add: crypto_shash_finup_mb_def)
next
  case (Cons r rs)
  then have "r \<in> set (filter (\<lambda>r. fst r \<noteq> 0) (map (\<lambda>d. crypto_shash_finup E st (take len d)) data))"
    by simp
  then have "fst r \<noteq> 0" "\<exists>d \<in> set data. r = crypto_shash_finup E st (take len d)"
    by auto
  with Cons show ?thesis by (auto simp: crypto_shash_finup_mb_def)
qed

lemma finup_mb_snd:
  assumes "fst (crypto_shash_finup_mb E st data len) = 0"
  shows "snd (crypto_shash_finup_mb E st data len) = map (\<lambda>d. snd (crypto_shash_finup E st (take len d))) data"
proof (cases "filter (\<lambda>r. fst r \<noteq> 0) (map (\<lambda>d. crypto_shash_finup E st (take len d)) data)")
  case Nil
  then show ?thesis by (simp add: crypto_shash_finup_mb_def comp_def)
next
  case (Cons r rs)
  then have "r \<in> set (filter (\<lambda>r. fst r \<noteq> 0) (map (\<lambda>d. crypto_shash_finup E st (take len d)) data))"
    by simp
  then have "fst r \<noteq> 0" by simp
  with Cons assms show ?thesis by (simp add: crypto_shash_finup_mb_def)
qed

lemma single_pending_fields [simp]:
  "num_pending (single_pending ctx i) = 1"
  "ctx_vi (single_pending ctx i) = ctx_vi ctx"
  "ctx_inode (single_pending ctx i) = ctx_inode ctx"
  "max_ra_pages (single_pending ctx i) = max_ra_pages ctx"
  "pending_blocks (single_pending ctx i) 0 = pending_blocks ctx i"
  by (simp_all add: single_pending_def)

lemma single_flush_failed:
  assumes "shash_prepare E (tree_params (ctx_vi ctx)) \<noteq> 0 \<or>
           fst (crypto_shash_finup E (hashstate (tree_params (ctx_vi ctx)))
                  (take (unat (block_size (tree_params (ctx_vi ctx))))
                     (v_bytes (pb_data (pending_blocks ctx i))))) \<noteq> 0"
  shows "\<not> fst (fsverity_verify_pending_blocks E (single_pending ctx i) t) \<and>
         same_memo t (snd (snd (fsverity_verify_pending_blocks E (single_pending ctx i) t)))"
proof (cases rule: flush_cases [of "single_pending ctx i" E t])
  case empty
  then show ?thesis by simp
next
  case import_failed
  then show ?thesis by simp
next
  case (hash_failed err hs)
  then show ?thesis by simp
next
  case (walk_failed hs s1)
  from walk_failed(3) have "fst (crypto_shash_finup_mb E (hashstate (tree_params (ctx_vi ctx)))
      [v_bytes (pb_data (pending_blocks ctx i))] (unat (block_size (tree_params (ctx_vi ctx))))) = 0"
    by simp
  with assms walk_failed(2) show ?thesis by (simp add: finup_mb_fst)
next
  case (ok hs s1)
  from ok(3) have "fst (crypto_shash_finup_mb E (hashstate (tree_params (ctx_vi ctx)))
      [v_bytes (pb_data (pending_blocks ctx i))] (unat (block_size (tree_params (ctx_vi ctx))))) = 0"
    by simp
  with assms ok(2) show ?thesis by (simp add: finup_mb_fst)
qed

lemma single_flush_walks:
  assumes prep: "shash_prepare E (tree_params (ctx_vi ctx)) = 0"
    and hi: "fst (crypto_shash_finup E (hashstate (tree_params (ctx_vi ctx)))
                  (take (unat (block_size (tree_params (ctx_vi ctx))))
                     (v_bytes (pb_data (pending_blocks ctx i))))) = 0"
  shows "fst (fsverity_verify_pending_blocks E (single_pending ctx i) t) =
           fst (verify_data_block E (ctx_inode ctx) (ctx_vi ctx)
                  ((pending_blocks ctx i)\<lparr>real_hash :=
                      snd (crypto_shash_finup E (hashstate (tree_params (ctx_vi ctx)))
                             (take (unat (block_size (tree_params (ctx_vi ctx))))
                                (v_bytes (pb_data (pending_blocks ctx i)))))\<rparr>)
                  (max_ra_pages ctx) t) \<and>
         same_memo (snd (snd (fsverity_verify_pending_blocks E (single_pending ctx i) t)))
           (snd (verify_data_block E (ctx_inode ctx) (ctx_vi ctx)
                  ((pending_blocks ctx i)\<lparr>real_hash :=
                      snd (crypto_shash_finup E (hashstate (tree_params (ctx_vi ctx)))
                             (take (unat (block_size (tree_params (ctx_vi ctx))))
                                (v_bytes (pb_data (pending_blocks ctx i)))))\<rparr>)
                  (max_ra_pages ctx) t))"
proof -
  let ?st = "hashstate (tree_params (ctx_vi ctx))" and ?bs = "unat (block_size (tree_params (ctx_vi ctx)))"
  let ?body = "v_bytes (pb_data (pending_blocks ctx i))"
  let ?d = "(pending_blocks ctx i)\<lparr>real_hash := snd (crypto_shash_finup E ?st (take ?bs ?body))\<rparr>"
  let ?v = "verify_data_block E (ctx_inode ctx) (ctx_vi ctx) ?d (max_ra_pages ctx) t"
  have mb0: "fst (crypto_shash_finup_mb E ?st [?body] ?bs) = 0"
    using hi by (simp add: finup_mb_fst)
  have hs: "crypto_shash_finup_mb E ?st [?body] ?bs = (0, hs) \<Longrightarrow>
      pending_blocks (store_real_hashes (single_pending ctx i) hs) 0 = ?d" for hs
    using finup_mb_snd [OF mb0] by (simp add: store_real_hashes_def)
  have ve: "verify_each E (store_real_hashes (single_pending ctx i) hs) [0..<1] t =
      (if fst ?v then (True, snd ?v) else (False, snd ?v))"
    if "crypto_shash_finup_mb E ?st [?body] ?bs = (0, hs)" for hs
    using hs [OF that] by (cases ?v) (auto simp: upt_rec)
  show ?thesis
  proof (cases rule: flush_cases [of "single_pending ctx i" E t])
    case empty
    then show ?thesis by simp
  next
    case import_failed
    with prep show ?thesis by simp
  next
    case (hash_failed err hs)
    with mb0 show ?thesis by simp
  next
    case (walk_failed hs s1)
    from walk_failed(3) have "crypto_shash_finup_mb E ?st [?body] ?bs = (0, hs)" by simp
    from ve [OF this] walk_failed(4,5) show ?thesis by (auto split: if_splits)
  next
    case (ok hs s1)
    from ok(3) have "crypto_shash_finup_mb E ?st [?body] ?bs = (0, hs)" by simp
    from ve [OF this] ok(4,5) show ?thesis
      by (auto simp: fsverity_clear_pending_blocks_eq same_memo_def split: if_splits)
  qed
qed

lemma batch_walks:
  fixes E ctx
  defines "h \<equiv> \<lambda>i. crypto_shash_finup E (hashstate (tree_params (ctx_vi ctx)))
                      (take (unat (block_size (tree_params (ctx_vi ctx))))
                         (v_bytes (pb_data (pending_blocks ctx i))))"
  assumes prep: "shash_prepare E (tree_params (ctx_vi ctx)) = 0"
    and js: "\<forall>i \<in> set js. i < num_pending ctx \<and> fst (h i) = 0"
    and st: "same_memo s t"
  shows "fst (verify_each E (store_real_hashes ctx (map (\<lambda>i. snd (h i)) [0..<num_pending ctx])) js s) =
           fst (verify_separately_until_reject E ctx js t) \<and>
         same_memo (snd (verify_each E (store_real_hashes ctx (map (\<lambda>i. snd (h i)) [0..<num_pending ctx])) js s))
                   (snd (verify_separately_until_reject E ctx js t)) \<and>
         fst (verify_each E (store_real_hashes ctx (map (\<lambda>i. snd (h i)) [0..<num_pending ctx])) js s) =
           fst (verify_separately E ctx js t) \<and>
         (fst (verify_each E (store_real_hashes ctx (map (\<lambda>i. snd (h i)) [0..<num_pending ctx])) js s) \<longrightarrow>
            same_memo (snd (verify_each E (store_real_hashes ctx (map (\<lambda>i. snd (h i)) [0..<num_pending ctx])) js s))
                      (snd (verify_separately E ctx js t)))"
  using js st
proof (induction js arbitrary: s t)
  case Nil
  then show ?case by simp
next
  case (Cons i js)
  let ?ctx1 = "store_real_hashes ctx (map (\<lambda>i. snd (h i)) [0..<num_pending ctx])"
  let ?d = "(pending_blocks ctx i)\<lparr>real_hash := snd (h i)\<rparr>"
  from Cons.prems(1) have i: "i < num_pending ctx" "fst (h i) = 0" by simp_all
  from i(1) have d: "pending_blocks ?ctx1 i = ?d" by (simp add: store_real_hashes_def)
  let ?vs = "verify_data_block E (ctx_inode ctx) (ctx_vi ctx) ?d (max_ra_pages ctx) s"
  let ?vt = "verify_data_block E (ctx_inode ctx) (ctx_vi ctx) ?d (max_ra_pages ctx) t"
  let ?ft = "fsverity_verify_pending_blocks E (single_pending ctx i) t"
  from verify_data_block_same_memo [OF Cons.prems(2)]
  have v: "fst ?vs = fst ?vt" "same_memo (snd ?vs) (snd ?vt)" by simp_all
  from single_flush_walks [OF prep i(2) [unfolded h_def], of t]
  have f: "fst ?ft = fst ?vt" "same_memo (snd (snd ?ft)) (snd ?vt)" by (simp_all add: h_def)
  from v(2) f(2) have m: "same_memo (snd ?vs) (snd (snd ?ft))"
    by (simp add: same_memo_def)
  have e: "verify_each E ?ctx1 (i # js) s =
      (if fst ?vs then verify_each E ?ctx1 js (snd ?vs) else (False, snd ?vs))"
    by (cases ?vs) (auto simp: d)
  have u: "verify_separately_until_reject E ctx (i # js) t =
      (if fst ?ft then verify_separately_until_reject E ctx js (snd (snd ?ft)) else (False, snd (snd ?ft)))"
    by (cases ?ft) auto
  have a: "fst (verify_separately E ctx (i # js) t) =
      (fst ?ft \<and> fst (verify_separately E ctx js (snd (snd ?ft))))"
    "snd (verify_separately E ctx (i # js) t) = snd (verify_separately E ctx js (snd (snd ?ft)))"
    by (cases ?ft; cases "verify_separately E ctx js (snd (snd ?ft))"; simp)+
  from Cons.prems(1) have rest: "\<forall>i \<in> set js. i < num_pending ctx \<and> fst (h i) = 0" by simp
  note IH = Cons.IH [OF rest m]
  note ih1 = IH [THEN conjunct1] and ih2 = IH [THEN conjunct2, THEN conjunct1]
    and ih3 = IH [THEN conjunct2, THEN conjunct2, THEN conjunct1]
    and ih4 = IH [THEN conjunct2, THEN conjunct2, THEN conjunct2]
  show ?case
  proof (cases "fst ?vs")
    case True
    with v(1) f(1) have ft: "fst ?ft" by simp
    have E1: "verify_each E ?ctx1 (i # js) s = verify_each E ?ctx1 js (snd ?vs)"
      using e True by simp
    have U1: "verify_separately_until_reject E ctx (i # js) t =
        verify_separately_until_reject E ctx js (snd (snd ?ft))"
      using u ft by simp
    have A1: "fst (verify_separately E ctx (i # js) t) = fst (verify_separately E ctx js (snd (snd ?ft)))"
      using a(1) ft by simp
    show ?thesis unfolding E1 U1 A1 a(2) by (intro conjI ih1 ih2 ih3 ih4)
  next
    case False
    with v(1) f(1) have ft: "\<not> fst ?ft" by simp
    have E2: "verify_each E ?ctx1 (i # js) s = (False, snd ?vs)"
      using e False by simp
    have U2: "verify_separately_until_reject E ctx (i # js) t = (False, snd (snd ?ft))"
      using u ft by simp
    have A2: "\<not> fst (verify_separately E ctx (i # js) t)"
      using a(1) ft by simp
    show ?thesis unfolding E2 U2 using A2 m by simp
  qed
qed

lemma separately_rejects:
  assumes "shash_prepare E (tree_params (ctx_vi ctx)) \<noteq> 0 \<or>
           fst (crypto_shash_finup E (hashstate (tree_params (ctx_vi ctx)))
                  (take (unat (block_size (tree_params (ctx_vi ctx))))
                     (v_bytes (pb_data (pending_blocks ctx i))))) \<noteq> 0"
    and "i \<in> set js"
  shows "\<not> fst (verify_separately E ctx js t)"
  using assms(2)
proof (induction js arbitrary: t)
  case Nil
  then show ?case by simp
next
  case (Cons j js)
  let ?ft = "fsverity_verify_pending_blocks E (single_pending ctx j) t"
  have a: "fst (verify_separately E ctx (j # js) t) =
      (fst ?ft \<and> fst (verify_separately E ctx js (snd (snd ?ft))))"
    by (cases ?ft; cases "verify_separately E ctx js (snd (snd ?ft))"; simp)
  show ?case
  proof (cases "i = j")
    case True
    with single_flush_failed [OF assms(1), of t] a show ?thesis by simp
  next
    case False
    with Cons.prems have "i \<in> set js" by simp
    from Cons.IH [OF this] a show ?thesis by simp
  qed
qed

section \<open>Claims about the batching context\<close>

lemma until_reject_Cons_failed:
  assumes "\<not> fst (fsverity_verify_pending_blocks E (single_pending ctx i) t)"
  shows "verify_separately_until_reject E ctx (i # js) t =
           (False, snd (snd (fsverity_verify_pending_blocks E (single_pending ctx i) t)))"
  using assms by (cases "fsverity_verify_pending_blocks E (single_pending ctx i) t") auto

text \<open>
  C3, amended. One flush of a context and the separate flushes of its pending blocks,
  each alone, in the same order, give the same accept or reject result; when the result
  is accept, they leave the same memoization state. When the multibuffer hash of the
  batch does not fail, the flush agrees in result and in memoization state with the
  separate flushes made in order up to the first block that is rejected.
\<close>

theorem batch_equivalence:
  "fst (fsverity_verify_pending_blocks E ctx s) =
     fst (verify_separately E ctx [0..<num_pending ctx] s) \<and>
   (fst (fsverity_verify_pending_blocks E ctx s) \<longrightarrow>
      same_memo (snd (snd (fsverity_verify_pending_blocks E ctx s)))
                (snd (verify_separately E ctx [0..<num_pending ctx] s))) \<and>
   (batch_hash_ok E ctx \<longrightarrow>
      fst (fsverity_verify_pending_blocks E ctx s) =
        fst (verify_separately_until_reject E ctx [0..<num_pending ctx] s) \<and>
      same_memo (snd (snd (fsverity_verify_pending_blocks E ctx s)))
                (snd (verify_separately_until_reject E ctx [0..<num_pending ctx] s)))"
proof -
  let ?n = "num_pending ctx"
  let ?params = "tree_params (ctx_vi ctx)"
  let ?h = "\<lambda>i. crypto_shash_finup E (hashstate ?params)
                  (take (unat (block_size ?params)) (v_bytes (pb_data (pending_blocks ctx i))))"
  let ?mb = "crypto_shash_finup_mb E (hashstate ?params)
               (map (\<lambda>i. v_bytes (pb_data (pending_blocks ctx i))) [0..<?n])
               (unat (block_size ?params))"
  have mbf: "fst ?mb = 0 \<longleftrightarrow> (\<forall>i<?n. fst (?h i) = 0)"
    by (auto simp: finup_mb_fst)
  have mbs: "fst ?mb = 0 \<Longrightarrow> snd ?mb = map (\<lambda>i. snd (?h i)) [0..<?n]"
    by (simp add: finup_mb_snd comp_def)
  have bh: "batch_hash_ok E ctx = (fst ?mb = 0)" by (simp add: batch_hash_ok_def)
  have first: "0 < ?n \<Longrightarrow> [0..<?n] = 0 # [1..<?n]" by (simp add: upt_rec)
  show ?thesis
  proof (cases rule: flush_cases [of ctx E s])
    case empty
    then show ?thesis by simp
  next
    case import_failed
    from import_failed(1) have "0 \<in> set [0..<?n]" by simp
    from separately_rejects [OF _ this, of E ctx s] import_failed(2)
    have 1: "\<not> fst (verify_separately E ctx [0..<?n] s)" by simp
    from single_flush_failed [of E ctx 0 s] import_failed(2)
    have "\<not> fst (fsverity_verify_pending_blocks E (single_pending ctx 0) s)"
      "same_memo s (snd (snd (fsverity_verify_pending_blocks E (single_pending ctx 0) s)))"
      by simp_all
    with until_reject_Cons_failed [of E ctx 0 s "[1..<?n]"] first [OF import_failed(1)]
    have 2: "\<not> fst (verify_separately_until_reject E ctx [0..<?n] s)"
      "same_memo s (snd (verify_separately_until_reject E ctx [0..<?n] s))"
      by simp_all
    from 1 2 import_failed(3) show ?thesis by simp
  next
    case (hash_failed err hs)
    from hash_failed(3,4) have nz: "fst ?mb \<noteq> 0" by simp
    with mbf obtain i where i: "i < ?n" "fst (?h i) \<noteq> 0" by auto
    from i(1) have "i \<in> set [0..<?n]" by simp
    from separately_rejects [OF _ this, of E ctx s] i(2)
    have "\<not> fst (verify_separately E ctx [0..<?n] s)" by simp
    with nz bh hash_failed(5) show ?thesis by simp
  next
    case (walk_failed hs s1)
    from walk_failed(3) have z: "fst ?mb = 0" and hs: "hs = snd ?mb" by simp_all
    from z mbf have all: "\<forall>i \<in> set [0..<?n]. i < ?n \<and> fst (?h i) = 0" by simp
    from hs mbs [OF z] have hs': "hs = map (\<lambda>i. snd (?h i)) [0..<?n]" by simp
    note bw = batch_walks [OF walk_failed(2) all same_memo_refl, of s, folded hs']
    from bw walk_failed(4,5) show ?thesis by simp
  next
    case (ok hs s1)
    from ok(3) have z: "fst ?mb = 0" and hs: "hs = snd ?mb" by simp_all
    from z mbf have all: "\<forall>i \<in> set [0..<?n]. i < ?n \<and> fst (?h i) = 0" by simp
    from hs mbs [OF z] have hs': "hs = map (\<lambda>i. snd (?h i)) [0..<?n]" by simp
    note bw = batch_walks [OF ok(2) all same_memo_refl, of s, folded hs']
    have cm: "same_memo (snd (fsverity_clear_pending_blocks (store_real_hashes ctx hs) s1)) s1"
      by (simp add: fsverity_clear_pending_blocks_eq same_memo_def)
    from bw ok(4) have b1: "fst (verify_separately_until_reject E ctx [0..<?n] s)"
      and b2: "same_memo s1 (snd (verify_separately_until_reject E ctx [0..<?n] s))"
      and b3: "fst (verify_separately E ctx [0..<?n] s)"
      and b4: "same_memo s1 (snd (verify_separately E ctx [0..<?n] s))"
      by simp_all
    from ok(5) have f1: "fst (fsverity_verify_pending_blocks E ctx s)"
      and f2: "snd (snd (fsverity_verify_pending_blocks E ctx s)) =
               snd (fsverity_clear_pending_blocks (store_real_hashes ctx hs) s1)"
      by simp_all
    from f1 b1 b3 same_memo_trans [OF cm b2] same_memo_trans [OF cm b4]
    show ?thesis by (simp only: f2 simp_thms)
  qed
qed

text \<open>
  C3, as stated, fails. Two blocks are pending, within \<open>mb_max_msgs\<close>, and the hash
  of the second one fails. The flush walks no block and leaves the memoization state as
  it is; verified separately, the first block is walked and its leaf hash block is
  memoized before the second block is rejected.
\<close>

theorem batch_equivalence_counterexample:
  "int (num_pending (ex_ctx ex_inode [ex_block 0 [65, 65, 65, 65] [], ex_block 4 [255, 66, 66, 66] []]))
     \<le> mb_max_msgs (tree_params (ctx_vi (ex_ctx ex_inode [ex_block 0 [65, 65, 65, 65] [], ex_block 4 [255, 66, 66, 66] []]))) \<and>
   \<not> fst (fsverity_verify_pending_blocks (ex_env 2)
           (ex_ctx ex_inode [ex_block 0 [65, 65, 65, 65] [], ex_block 4 [255, 66, 66, 66] []]) ex_state) \<and>
   \<not> pg_checked (snd (snd (fsverity_verify_pending_blocks (ex_env 2)
           (ex_ctx ex_inode [ex_block 0 [65, 65, 65, 65] [], ex_block 4 [255, 66, 66, 66] []]) ex_state))) 0 \<and>
   \<not> fst (verify_separately (ex_env 2)
           (ex_ctx ex_inode [ex_block 0 [65, 65, 65, 65] [], ex_block 4 [255, 66, 66, 66] []]) [0..<2] ex_state) \<and>
   pg_checked (snd (verify_separately (ex_env 2)
           (ex_ctx ex_inode [ex_block 0 [65, 65, 65, 65] [], ex_block 4 [255, 66, 66, 66] []]) [0..<2] ex_state)) 0"
  by code_simp

theorem batch_equivalence_witness:
  "batch_hash_ok (ex_env 2) (ex_ctx ex_inode [ex_block 0 [65, 65, 65, 65] [], ex_block 4 [66, 66, 66, 66] []]) \<and>
   fst (fsverity_verify_pending_blocks (ex_env 2)
           (ex_ctx ex_inode [ex_block 0 [65, 65, 65, 65] [], ex_block 4 [66, 66, 66, 66] []]) ex_state) \<and>
   fst (verify_separately (ex_env 2)
           (ex_ctx ex_inode [ex_block 0 [65, 65, 65, 65] [], ex_block 4 [66, 66, 66, 66] []]) [0..<2] ex_state) \<and>
   same_memo
     (snd (snd (fsverity_verify_pending_blocks (ex_env 2)
           (ex_ctx ex_inode [ex_block 0 [65, 65, 65, 65] [], ex_block 4 [66, 66, 66, 66] []]) ex_state)))
     (snd (verify_separately (ex_env 2)
           (ex_ctx ex_inode [ex_block 0 [65, 65, 65, 65] [], ex_block 4 [66, 66, 66, 66] []]) [0..<2] ex_state))"
proof -
  let ?ctx = "ex_ctx ex_inode [ex_block 0 [65, 65, 65, 65] [], ex_block 4 [66, 66, 66, 66] []]"
  have h: "batch_hash_ok (ex_env 2) ?ctx" by code_simp
  have f: "fst (fsverity_verify_pending_blocks (ex_env 2) ?ctx ex_state)" by code_simp
  have n: "num_pending ?ctx = 2" by (simp add: ex_ctx_def)
  from batch_equivalence [of "ex_env 2" ?ctx ex_state] h f show ?thesis
    by (simp only: n simp_thms)
qed


subsection \<open>The walks of the flush, one after the other\<close>







text \<open>
  C8. A walk leaves, for every tree page, as many references and mappings as it found,
  and touches no data view: each page it acquires is released once, on whichever exit.
  For a block size that is the power of two of its logarithm, \<open>fsverity_verify_blocks\<close>
  and \<open>fsverity_verify_bio\<close> return, and when they do, with success or failure, every
  tree page reference, tree page mapping and data view taken in between is released.
\<close>

theorem no_mapping_leak:
  "same_resources s (snd (verify_data_block E inode vi dblock max_ra s)) \<and>
   (block_params_ok (tree_params (i_verity_info (f_host fol))) \<longrightarrow>
      (\<exists>r s'. fsverity_verify_blocks E fol len offset s = Some (r, s') \<and> same_resources s s')) \<and>
   (\<forall>first l off rest.
      bi_folios b = (first, l, off) # rest \<and>
      block_params_ok (tree_params (i_verity_info (f_host first))) \<longrightarrow>
      (\<exists>b' s'. fsverity_verify_bio E b s = Some (b', s') \<and> same_resources s s'))"
  using verify_data_block_resources [of s E inode vi dblock max_ra]
    verify_blocks_no_leak [of fol E len offset s] verify_bio_no_leak [of b _ _ _ _ E s]
  by blast

theorem no_mapping_leak_witness:
  "block_params_ok (tree_params (i_verity_info (f_host (ex_folio ex_inode [65, 65, 65, 65, 66, 66, 67, 66])))) \<and>
   (\<exists>r s'. fsverity_verify_blocks (ex_env 2) (ex_folio ex_inode [65, 65, 65, 65, 66, 66, 67, 66]) 8 0 ex_state
              = Some (r, s') \<and> same_resources ex_state s') \<and>
   (\<exists>b' s'. fsverity_verify_bio (ex_env 2) (ex_bio ex_inode [65, 65, 65, 65, 66, 66, 67, 66]) ex_state
              = Some (b', s') \<and> same_resources ex_state s')"
proof -
  let ?f = "ex_folio ex_inode [65, 65, 65, 65, 66, 66, 67, 66]"
  have h: "block_params_ok (tree_params (i_verity_info (f_host ?f)))" by code_simp
  have b: "bi_folios (ex_bio ex_inode [65, 65, 65, 65, 66, 66, 67, 66]) = (?f, 8, 0) # []"
    by (simp add: ex_bio_def)
  from no_mapping_leak [of ex_state "ex_env 2" ex_inode ex_vi "ex_block 0 [] []" 0 ?f 8 0
      "ex_bio ex_inode [65, 65, 65, 65, 66, 66, 67, 66]"] h b
  show ?thesis by blast
qed

section \<open>The memoization state stays sound\<close>

text \<open>
  The theorems about the walker assume a memoization state that marks only hash blocks
  that the tree authenticates. This section shows where the assumption comes from: a
  state with no page flag set satisfies it, and the walk of a block, the flush of a
  batch and both entry points keep it, for every position in the file.
\<close>

lemma tree_block_index_Suc:
  "tree_block_index params pos l = level_start params ! l + child_index params pos (Suc l)"
  by (simp add: tree_block_index_def child_index_Suc)

lemma same_block_above:
  assumes "tree_block_index params pos l = tree_block_index params pos' l"
  shows "l \<le> j \<Longrightarrow> child_index params pos (Suc j) = child_index params pos' (Suc j)"
proof (induction j)
  case 0
  with assms show ?case by (simp add: tree_block_index_Suc)
next
  case (Suc j)
  show ?case
  proof (cases "l \<le> j")
    case True
    with Suc.IH show ?thesis by (simp add: child_index_Suc [of _ _ "Suc j"])
  next
    case False
    with Suc.prems have "l = Suc j" by simp
    with assms show ?thesis by (simp add: tree_block_index_Suc)
  qed
qed

lemma same_block_level_ok:
  assumes "tree_block_index (tree_params vi) pos l = tree_block_index (tree_params vi) pos' l"
    and "l \<le> j"
  shows "level_ok E inode vi pos j = level_ok E inode vi pos' j"
proof -
  note ci = same_block_above [OF assms(1)]
  from ci [OF assms(2)] have t1: "tree_block_index (tree_params vi) pos j = tree_block_index (tree_params vi) pos' j"
    by (simp add: tree_block_index_Suc)
  from assms(2) ci [of "Suc j"] have t2: "tree_block_index (tree_params vi) pos (Suc j) =
      tree_block_index (tree_params vi) pos' (Suc j)"
    by (simp add: tree_block_index_Suc)
  from ci [OF assms(2)] have d: "digest_offset (tree_params vi) pos (Suc j) = digest_offset (tree_params vi) pos' (Suc j)"
    by (simp add: digest_offset_def)
  have b1: "tree_block E inode (tree_params vi) pos j = tree_block E inode (tree_params vi) pos' j"
    unfolding tree_block_def page_index_def block_offset_in_page_def t1 ..
  have b2: "tree_block E inode (tree_params vi) pos (Suc j) = tree_block E inode (tree_params vi) pos' (Suc j)"
    unfolding tree_block_def page_index_def block_offset_in_page_def t2 ..
  have b3: "stored_digest E inode vi pos (Suc j) = stored_digest E inode vi pos' (Suc j)"
    unfolding stored_digest_def b2 d ..
  show ?thesis unfolding level_ok_def b1 b3 ..
qed

lemma same_block_path_ok:
  assumes "tree_block_index (tree_params vi) pos l = tree_block_index (tree_params vi) pos' l"
  shows "path_ok E inode vi pos l = path_ok E inode vi pos' l"
  using same_block_level_ok [OF assms] by (simp add: path_ok_iff)

lemma mark_verified_marked:
  assumes "memo_params_ok vi"
    and "pg_index pg = drop_bit (log_blocks_per_page (tree_params vi)) B"
    and "memo_marked vi (mark_verified vi pg B s) b"
  shows "memo_marked vi s b \<or> b = B"
  using assms
  by (auto simp: memo_marked_def mark_verified_fields memo_params_ok_def split: if_splits)

lemma descend_new_marks:
  assumes ok: "memo_params_ok vi"
    and rd: "\<forall>j<k. tree_block E inode (tree_params vi) pos j \<noteq> None"
    and k: "k \<le> num_levels (tree_params vi)"
    and m: "memo_marked vi (snd (descend E vi dblock (stored_digest E inode vi pos k)
                                   (path_hbs E inode (tree_params vi) pos k) s)) b"
  shows "memo_marked vi s b \<or>
         (\<exists>m<k. b = tree_block_index (tree_params vi) pos m \<and>
                 (\<forall>j. m \<le> j \<and> j < k \<longrightarrow> level_ok E inode vi pos j))"
  using rd k m
proof (induction k arbitrary: s)
  case 0
  then show ?case by (simp add: path_hbs_def descend_Nil split: if_splits)
next
  case (Suc k)
  let ?hb = "path_hb E inode (tree_params vi) pos k"
  from Suc.prems(1) obtain blk where blk: "tree_block E inode (tree_params vi) pos k = Some blk"
    by auto
  from Suc.prems(2) have kn: "k < num_levels (tree_params vi)" by simp
  have hbs: "path_hbs E inode (tree_params vi) pos (Suc k) = ?hb # path_hbs E inode (tree_params vi) pos k"
    by (simp add: path_hbs_def)
  have lo: "level_ok E inode vi pos k =
     hashes_to E (tree_params vi) (v_bytes (hb_addr ?hb)) (stored_digest E inode vi pos (Suc k))"
    by (simp add: level_ok_def blk path_hb_bytes [OF blk])
  have sd: "take (unat (digest_size (tree_params vi)))
       (v_bytes (view_add (hb_addr ?hb) (hb_hoffset ?hb))) = stored_digest E inode vi pos k"
    using kn blk by (simp add: stored_digest_def path_hb_bytes path_hb_fields)
  show ?case
  proof (cases "level_ok E inode vi pos k")
    case False
    with lo have "\<not> hashes_to E (tree_params vi) (v_bytes (hb_addr ?hb)) (stored_digest E inode vi pos (Suc k))"
      by simp
    with Suc.prems(3) have "memo_marked vi s b"
      by (auto simp: hbs descend_Cons memo_marked_def split: if_splits)
    then show ?thesis by simp
  next
    case True
    let ?s2 = "put_page (hb_page ?hb) (kunmap_local (hb_addr ?hb)
                 (mark_verified vi (hb_page ?hb) (hb_index ?hb) s))"
    from True lo have h: "hashes_to E (tree_params vi) (v_bytes (hb_addr ?hb)) (stored_digest E inode vi pos (Suc k))"
      by simp
    from Suc.prems(3) [unfolded hbs descend_Cons]
    have m2: "memo_marked vi (snd (descend E vi dblock (stored_digest E inode vi pos k)
                                   (path_hbs E inode (tree_params vi) pos k) ?s2)) b"
      by (simp only: h if_True sd)
    from Suc.prems(1,2) have "\<forall>j<k. tree_block E inode (tree_params vi) pos j \<noteq> None"
      "k \<le> num_levels (tree_params vi)" by simp_all
    from Suc.IH [OF this m2]
    consider "memo_marked vi ?s2 b"
      | "\<exists>m<k. b = tree_block_index (tree_params vi) pos m \<and>
                 (\<forall>j. m \<le> j \<and> j < k \<longrightarrow> level_ok E inode vi pos j)"
      by blast
    then show ?thesis
    proof cases
      case 1
      then have "memo_marked vi (mark_verified vi (hb_page ?hb) (hb_index ?hb) s) b" by simp
      from mark_verified_marked [OF ok _ this]
      have "memo_marked vi s b \<or> b = tree_block_index (tree_params vi) pos k"
        by (simp add: path_hb_fields page_index_def)
      with True show ?thesis by (auto simp: less_Suc_eq)
    next
      case 2
      then obtain m where "m < k" "b = tree_block_index (tree_params vi) pos m"
        "\<forall>j. m \<le> j \<and> j < k \<longrightarrow> level_ok E inode vi pos j" by blast
      with True have "m < Suc k \<and> b = tree_block_index (tree_params vi) pos m \<and>
          (\<forall>j. m \<le> j \<and> j < Suc k \<longrightarrow> level_ok E inode vi pos j)"
        by (auto simp: less_Suc_eq)
      then show ?thesis by blast
    qed
  qed
qed

lemma memo_params_wf: "memo_params_ok vi \<Longrightarrow> hash_block_verified vi \<longrightarrow> bitmap_params_ok (tree_params vi)"
  by (simp add: memo_params_ok_def)

lemma verify_data_block_keeps_memo_sound:
  assumes ok: "memo_params_ok vi"
    and ld: "levels_distinct inode (tree_params vi)"
    and G: "memo_sound_all E inode vi s"
  shows "memo_sound_all E inode vi (snd (verify_data_block E inode vi dblock max_ra s))"
proof (cases "pb_pos dblock < i_size inode")
  case False
  then have "same_memo s (snd (verify_data_block E inode vi dblock max_ra s))"
    by (simp add: verify_data_block_def not_less)
  with G show ?thesis
    by (simp add: memo_sound_all_def memo_sound_def same_memo_marked)
next
  case True
  let ?pos = "pb_pos dblock" and ?n = "num_levels (tree_params vi)"
  let ?s' = "snd (verify_data_block E inode vi dblock max_ra s)"
  note wf = memo_params_wf [OF ok]
  obtain r hbs s1 where asc:
    "ascend E inode vi max_ra 0 (child_index (tree_params vi) ?pos 0) [] s = (r, hbs, s1)"
    by (cases "ascend E inode vi max_ra 0 (child_index (tree_params vi) ?pos 0) [] s") blast
  note vdb = verify_data_block_inside [OF True asc]
  from ascend_shape [OF refl _ asc] obtain k where k: "k \<le> ?n"
    and hbs: "hbs = path_hbs E inode (tree_params vi) ?pos k"
    and rd: "\<forall>j<k. tree_block E inode (tree_params vi) ?pos j \<noteq> None"
    and res: "case r of
                None \<Rightarrow> k < ?n \<and> tree_block E inode (tree_params vi) ?pos k = None
              | Some want \<Rightarrow> want = stored_digest E inode vi ?pos k \<and>
                  (k < ?n \<longrightarrow> tree_block E inode (tree_params vi) ?pos k \<noteq> None)"
    by (auto simp: path_hbs_def)
  have hbs0: "hbs = map (path_hb E inode (tree_params vi) ?pos) (rev [0..<k]) @ []"
    by (simp add: hbs path_hbs_def)
  note am = ascend_memo [OF wf refl _ asc hbs0]
  from am have after: "\<And>b. memo_marked vi s1 b \<Longrightarrow> memo_marked vi s b"
    by (simp add: memo_after_def)
  from G True have G0: "memo_sound E inode vi ?pos s" by (simp add: memo_sound_all_def)
  have new: "memo_marked vi s b \<or>
         (r \<noteq> None \<and> (\<exists>m<k. b = tree_block_index (tree_params vi) ?pos m \<and>
                 (\<forall>j. m \<le> j \<and> j < k \<longrightarrow> level_ok E inode vi ?pos j)))"
    if "memo_marked vi ?s' b" for b
  proof (cases r)
    case None
    with vdb that have "memo_marked vi s1 b" by (simp add: memo_marked_def)
    with after show ?thesis by simp
  next
    case (Some want)
    with res have want: "want = stored_digest E inode vi ?pos k" by simp
    from Some vdb that have "memo_marked vi (snd (descend E vi dblock (stored_digest E inode vi ?pos k)
                                   (path_hbs E inode (tree_params vi) ?pos k) s1)) b"
      by (simp add: want hbs)
    from descend_new_marks [OF ok rd k this] after Some show ?thesis by auto
  qed
  have above: "path_ok E inode vi ?pos k" if "r \<noteq> None"
  proof (cases "k < ?n")
    case True
    with am that have "memo_marked vi s (tree_block_index (tree_params vi) ?pos k)" by simp
    with G0 True show ?thesis by (auto simp: memo_sound_def list_all_iff)
  next
    case False
    then show ?thesis by (auto simp: path_ok_iff)
  qed
  show ?thesis
    unfolding memo_sound_all_def memo_sound_def list_all_iff
  proof (intro allI impI ballI)
    fix pos l
    assume pos: "pos < i_size inode" and "l \<in> set [0..<?n]"
    then have l: "l < ?n" by simp
    show "\<not> memo_marked vi ?s' (tree_block_index (tree_params vi) pos l) \<or> path_ok E inode vi pos l"
    proof (cases "memo_marked vi ?s' (tree_block_index (tree_params vi) pos l)")
      case False
      then show ?thesis by simp
    next
      case marked: True
      from new [OF marked] consider "memo_marked vi s (tree_block_index (tree_params vi) pos l)"
        | m where "r \<noteq> None" "m < k" "tree_block_index (tree_params vi) pos l = tree_block_index (tree_params vi) ?pos m"
            "\<forall>j. m \<le> j \<and> j < k \<longrightarrow> level_ok E inode vi ?pos j"
        by blast
      then have "path_ok E inode vi pos l"
      proof cases
        case 1
        with G pos l show ?thesis by (auto simp: memo_sound_all_def memo_sound_def list_all_iff)
      next
        case 2
        from 2(2) k have mn: "m < ?n" by simp
        from ld pos True l mn 2(3) have "l = m" by (auto simp: levels_distinct_def)
        with 2(3) have eq: "tree_block_index (tree_params vi) pos m = tree_block_index (tree_params vi) ?pos m"
          by simp
        have "path_ok E inode vi ?pos m"
          unfolding path_ok_iff
        proof (intro allI impI)
          fix j assume j: "m \<le> j \<and> j < ?n"
          show "level_ok E inode vi ?pos j"
          proof (cases "j < k")
            case True
            with j 2(4) show ?thesis by simp
          next
            case False
            with j above [OF 2(1)] show ?thesis by (simp add: path_ok_iff)
          qed
        qed
        with same_block_path_ok [OF eq, of E inode] \<open>l = m\<close> show ?thesis by simp
      qed
      then show ?thesis by simp
    qed
  qed
qed

lemma fresh_memo_sound:
  assumes "\<forall>p. \<not> pg_checked s p"
  shows "memo_sound_all E inode vi s"
  using assms by (simp add: memo_sound_all_def memo_sound_def memo_marked_def list_all_iff)

lemma verify_each_keeps_memo_sound:
  assumes "memo_params_ok (ctx_vi ctx)"
    and "levels_distinct (ctx_inode ctx) (tree_params (ctx_vi ctx))"
    and "memo_sound_all E (ctx_inode ctx) (ctx_vi ctx) s"
  shows "memo_sound_all E (ctx_inode ctx) (ctx_vi ctx) (snd (verify_each E ctx js s))"
  using assms(3)
proof (induction js arbitrary: s)
  case Nil
  then show ?case by simp
next
  case (Cons i js)
  let ?r = "verify_data_block E (ctx_inode ctx) (ctx_vi ctx) (pending_blocks ctx i) (max_ra_pages ctx) s"
  from verify_data_block_keeps_memo_sound [OF assms(1,2) Cons.prems]
  have 1: "memo_sound_all E (ctx_inode ctx) (ctx_vi ctx) (snd ?r)" .
  show ?case
  proof (cases "fst ?r")
    case True
    then have "verify_each E ctx (i # js) s = verify_each E ctx js (snd ?r)"
      by (cases ?r) simp
    with Cons.IH [OF 1] show ?thesis by simp
  next
    case False
    then have "verify_each E ctx (i # js) s = (False, snd ?r)"
      by (cases ?r) simp
    with 1 show ?thesis by simp
  qed
qed

lemma memo_sound_all_same_memo:
  "same_memo s t \<Longrightarrow> memo_sound_all E inode vi s = memo_sound_all E inode vi t"
  by (simp add: memo_sound_all_def memo_sound_def same_memo_marked)

lemma clear_same_memo: "same_memo s (snd (fsverity_clear_pending_blocks ctx s))"
  by (simp add: fsverity_clear_pending_blocks_eq same_memo_def)

lemma clear_keeps_memo_sound [simp]:
  "memo_sound_all E inode vi (snd (fsverity_clear_pending_blocks ctx s)) = memo_sound_all E inode vi s"
  using memo_sound_all_same_memo [OF clear_same_memo] by simp

lemma clear_ctx_fields:
  "ctx_inode (fst (fsverity_clear_pending_blocks ctx s)) = ctx_inode ctx"
  "ctx_vi (fst (fsverity_clear_pending_blocks ctx s)) = ctx_vi ctx"
  by (simp_all add: fsverity_clear_pending_blocks_eq)

lemma flush_keeps_memo_sound:
  assumes ok: "memo_params_ok (ctx_vi ctx)"
    and ld: "levels_distinct (ctx_inode ctx) (tree_params (ctx_vi ctx))"
    and G: "memo_sound_all E (ctx_inode ctx) (ctx_vi ctx) s"
    and fl: "fsverity_verify_pending_blocks E ctx s = (r, ctx', s')"
  shows "memo_sound_all E (ctx_inode ctx) (ctx_vi ctx) s' \<and>
         ctx_inode ctx' = ctx_inode ctx \<and> ctx_vi ctx' = ctx_vi ctx"
proof (cases rule: flush_cases [of ctx E s])
  case empty
  with G fl show ?thesis by simp
next
  case import_failed
  with fl have "same_memo s s'" "ctx' = ctx" by (auto simp: same_memo_def)
  with G memo_sound_all_same_memo [of s s'] show ?thesis by simp
next
  case (hash_failed err hs)
  with fl have "same_memo s s'" "ctx' = ctx" by (auto simp: same_memo_def)
  with G memo_sound_all_same_memo [of s s'] show ?thesis by simp
next
  case (walk_failed hs s1)
  let ?c = "store_real_hashes ctx hs"
  from ok ld G have "memo_params_ok (ctx_vi ?c)" "levels_distinct (ctx_inode ?c) (tree_params (ctx_vi ?c))"
    "memo_sound_all E (ctx_inode ?c) (ctx_vi ?c) s" by simp_all
  from verify_each_keeps_memo_sound [OF this, of "[0..<num_pending ctx]"] walk_failed fl
  show ?thesis by simp
next
  case (ok hs s1)
  let ?c = "store_real_hashes ctx hs"
  from assms(1) ld G have "memo_params_ok (ctx_vi ?c)" "levels_distinct (ctx_inode ?c) (tree_params (ctx_vi ?c))"
    "memo_sound_all E (ctx_inode ?c) (ctx_vi ?c) s" by simp_all
  from verify_each_keeps_memo_sound [OF this, of "[0..<num_pending ctx]"] ok(4)
  have "memo_sound_all E (ctx_inode ctx) (ctx_vi ctx) s1" by simp
  moreover from ok(5) fl have "s' = snd (fsverity_clear_pending_blocks ?c s1)"
    "ctx' = fst (fsverity_clear_pending_blocks ?c s1)"
    by (simp_all only: prod.inject)
  ultimately show ?thesis by (simp add: clear_ctx_fields)
qed

lemma add_loop_keeps_memo_sound:
  assumes "add_loop E ctx fol pos len offset s = Some y"
  shows "memo_params_ok (ctx_vi ctx) \<and> levels_distinct (ctx_inode ctx) (tree_params (ctx_vi ctx)) \<and>
         memo_sound_all E (ctx_inode ctx) (ctx_vi ctx) s \<longrightarrow>
         memo_sound_all E (ctx_inode ctx) (ctx_vi ctx) (snd (snd y)) \<and>
         ctx_inode (fst (snd y)) = ctx_inode ctx \<and> ctx_vi (fst (snd y)) = ctx_vi ctx"
proof (rule add_loop.raw_induct [where P = "\<lambda>E ctx fol pos len offset s y.
         memo_params_ok (ctx_vi ctx) \<and> levels_distinct (ctx_inode ctx) (tree_params (ctx_vi ctx)) \<and>
         memo_sound_all E (ctx_inode ctx) (ctx_vi ctx) s \<longrightarrow>
         memo_sound_all E (ctx_inode ctx) (ctx_vi ctx) (snd (snd y)) \<and>
         ctx_inode (fst (snd y)) = ctx_inode ctx \<and> ctx_vi (fst (snd y)) = ctx_vi ctx", OF _ assms],
       goal_cases)
  case (1 f E ctx fol pos len offset s y)
  let ?params = "tree_params (ctx_vi ctx)"
  let ?ctx1 = "ctx\<lparr>pending_blocks := (pending_blocks ctx)(num_pending ctx :=
                   (pending_blocks ctx (num_pending ctx))
                     \<lparr>pb_data := fst (kmap_local_folio fol offset s), pb_pos := pos + offset\<rparr>),
                 num_pending := num_pending ctx + 1\<rparr>"
  let ?s1 = "snd (kmap_local_folio fol offset s)"
  let ?r = "if int (num_pending ctx + 1) = mb_max_msgs ?params
            then fsverity_verify_pending_blocks E ?ctx1 ?s1 else (True, ?ctx1, ?s1)"
  obtain ok c2 s2 where r: "?r = (ok, c2, s2)" by (cases ?r) blast
  from 1(2) have step:
    "(if \<not> ok then Some (ok, c2, s2)
      else if len - ucast (block_size ?params) \<noteq> 0
           then f E c2 fol pos (len - ucast (block_size ?params)) (offset + ucast (block_size ?params)) s2
           else Some (ok, c2, s2)) = Some y"
    by (simp only: Let_def r fst_conv snd_conv)
  show ?case
  proof (intro impI)
    assume a: "memo_params_ok (ctx_vi ctx) \<and> levels_distinct (ctx_inode ctx) (tree_params (ctx_vi ctx)) \<and>
         memo_sound_all E (ctx_inode ctx) (ctx_vi ctx) s"
    have sm: "same_memo s ?s1" by (simp add: kmap_local_folio_def same_memo_def)
    with a memo_sound_all_same_memo [OF sm]
    have G1: "memo_sound_all E (ctx_inode ?ctx1) (ctx_vi ?ctx1) ?s1" by simp
    from a have p1: "memo_params_ok (ctx_vi ?ctx1)"
      "levels_distinct (ctx_inode ?ctx1) (tree_params (ctx_vi ?ctx1))" by simp_all
    have h2: "memo_sound_all E (ctx_inode ctx) (ctx_vi ctx) s2 \<and>
              ctx_inode c2 = ctx_inode ctx \<and> ctx_vi c2 = ctx_vi ctx"
    proof (cases "int (num_pending ctx + 1) = mb_max_msgs ?params")
      case True
      with r have "fsverity_verify_pending_blocks E ?ctx1 ?s1 = (ok, c2, s2)" by simp
      from flush_keeps_memo_sound [OF p1 G1 this] show ?thesis by simp
    next
      case False
      with r G1 show ?thesis by auto
    qed
    show "memo_sound_all E (ctx_inode ctx) (ctx_vi ctx) (snd (snd y)) \<and>
         ctx_inode (fst (snd y)) = ctx_inode ctx \<and> ctx_vi (fst (snd y)) = ctx_vi ctx"
    proof (cases "ok \<and> len - ucast (block_size ?params) \<noteq> 0")
      case False
      with step h2 show ?thesis by (auto split: if_splits)
    next
      case True
      with step have "f E c2 fol pos (len - ucast (block_size ?params)) (offset + ucast (block_size ?params)) s2
          = Some y" by simp
      from 1(1) [OF this] h2 a show ?thesis by simp
    qed
  qed
qed

lemma add_data_blocks_keeps_memo_sound:
  assumes "fsverity_add_data_blocks E ctx fol len offset s = Some (r, ctx', s')"
    and "memo_params_ok (ctx_vi ctx)"
    and "levels_distinct (ctx_inode ctx) (tree_params (ctx_vi ctx))"
    and "memo_sound_all E (ctx_inode ctx) (ctx_vi ctx) s"
  shows "memo_sound_all E (ctx_inode ctx) (ctx_vi ctx) s' \<and>
         ctx_inode ctx' = ctx_inode ctx \<and> ctx_vi ctx' = ctx_vi ctx"
proof (cases "len = 0 \<or> \<not> IS_ALIGNED (len OR offset) (block_size (tree_params (ctx_vi ctx))) \<or>
              \<not> f_locked fol \<or> f_uptodate fol")
  case True
  then have "fsverity_add_data_blocks E ctx fol len offset s = Some (False, ctx, s)"
    by (auto simp: fsverity_add_data_blocks_def Let_def)
  with assms show ?thesis by auto
next
  case False
  then have "fsverity_add_data_blocks E ctx fol len offset s =
      add_loop E ctx fol (push_bit (PAGE_SHIFT E) (f_index fol)) len offset s"
    by (auto simp: fsverity_add_data_blocks_def Let_def)
  with assms(1) have "add_loop E ctx fol (push_bit (PAGE_SHIFT E) (f_index fol)) len offset s =
      Some (r, ctx', s')" by simp
  from add_loop_keeps_memo_sound [OF this] assms(2-4) show ?thesis by simp
qed

lemma add_folios_keeps_memo_sound:
  assumes "add_folios E ctx segs s = Some (r, ctx', s')"
    and "memo_params_ok (ctx_vi ctx)"
    and "levels_distinct (ctx_inode ctx) (tree_params (ctx_vi ctx))"
    and "memo_sound_all E (ctx_inode ctx) (ctx_vi ctx) s"
  shows "memo_sound_all E (ctx_inode ctx) (ctx_vi ctx) s' \<and>
         ctx_inode ctx' = ctx_inode ctx \<and> ctx_vi ctx' = ctx_vi ctx"
  using assms
proof (induction segs arbitrary: ctx s)
  case Nil
  then show ?case by auto
next
  case (Cons seg segs)
  obtain fol len offset where seg: "seg = (fol, len, offset)" by (cases seg) auto
  from Cons.prems(1) seg obtain ok c1 s1 where
    a: "fsverity_add_data_blocks E ctx fol len offset s = Some (ok, c1, s1)"
    by (cases "fsverity_add_data_blocks E ctx fol len offset s") auto
  note k = add_data_blocks_keeps_memo_sound [OF a Cons.prems(2-4)]
  show ?case
  proof (cases ok)
    case False
    with a seg Cons.prems(1) k show ?thesis by auto
  next
    case True
    with a seg Cons.prems(1) have "add_folios E c1 segs s1 = Some (r, ctx', s')" by simp
    from Cons.IH [OF this] k Cons.prems(2,3) show ?thesis by simp
  qed
qed

lemma verify_blocks_keeps_memo_sound:
  assumes "fsverity_verify_blocks E fol len offset s = Some (r, s')"
    and "memo_params_ok (i_verity_info (f_host fol))"
    and "levels_distinct (f_host fol) (tree_params (i_verity_info (f_host fol)))"
    and "memo_sound_all E (f_host fol) (i_verity_info (f_host fol)) s"
  shows "memo_sound_all E (f_host fol) (i_verity_info (f_host fol)) s'"
proof -
  let ?ctx = "fsverity_init_verification_context (f_host fol) 0"
  let ?G = "memo_sound_all E (f_host fol) (i_verity_info (f_host fol))"
  have c: "ctx_inode ?ctx = f_host fol" "ctx_vi ?ctx = i_verity_info (f_host fol)"
    by (simp_all add: fsverity_init_verification_context_def)
  from assms(1) obtain ok c1 s1 where a: "fsverity_add_data_blocks E ?ctx fol len offset s = Some (ok, c1, s1)"
    by (cases "fsverity_add_data_blocks E ?ctx fol len offset s") (auto simp: fsverity_verify_blocks_def)
  from add_data_blocks_keeps_memo_sound [OF a] assms(2-4)
  have k: "?G s1" "ctx_inode c1 = f_host fol" "ctx_vi c1 = i_verity_info (f_host fol)"
    by (simp_all add: c)
  show ?thesis
  proof (cases ok)
    case False
    with a assms(1) have "s' = snd (fsverity_clear_pending_blocks c1 s1)"
      by (auto simp: fsverity_verify_blocks_def)
    with k(1) show ?thesis by simp
  next
    case True
    obtain ok2 c2 s2 where fl: "fsverity_verify_pending_blocks E c1 s1 = (ok2, c2, s2)"
      by (cases "fsverity_verify_pending_blocks E c1 s1") auto
    from flush_keeps_memo_sound [OF _ _ _ fl] assms(2,3) k have 2: "?G s2" by simp
    from a True fl assms(1) have "s' = s2 \<or> s' = snd (fsverity_clear_pending_blocks c2 s2)"
      by (cases ok2) (auto simp: fsverity_verify_blocks_def)
    with 2 show ?thesis by auto
  qed
qed

lemma verify_bio_keeps_memo_sound:
  assumes "fsverity_verify_bio E b s = Some (b', s')"
    and "bi_folios b = (first, len, offset) # rest"
    and "memo_params_ok (i_verity_info (f_host first))"
    and "levels_distinct (f_host first) (tree_params (i_verity_info (f_host first)))"
    and "memo_sound_all E (f_host first) (i_verity_info (f_host first)) s"
  shows "memo_sound_all E (f_host first) (i_verity_info (f_host first)) s'"
proof -
  let ?ctx = "fsverity_init_verification_context (f_host first) (bio_max_ra_pages E b)"
  let ?G = "memo_sound_all E (f_host first) (i_verity_info (f_host first))"
  have c: "ctx_inode ?ctx = f_host first" "ctx_vi ?ctx = i_verity_info (f_host first)"
    by (simp_all add: fsverity_init_verification_context_def)
  from assms(1,2) obtain ok c1 s1 where a: "add_folios E ?ctx (bi_folios b) s = Some (ok, c1, s1)"
    by (cases "add_folios E ?ctx (bi_folios b) s")
      (auto simp: fsverity_verify_bio_def verify_bio_segments_def)
  from add_folios_keeps_memo_sound [OF a] assms(3-5)
  have k: "?G s1" "ctx_inode c1 = f_host first" "ctx_vi c1 = i_verity_info (f_host first)"
    by (simp_all add: c)
  show ?thesis
  proof (cases ok)
    case False
    with a assms(1,2) have "s' = snd (fsverity_clear_pending_blocks c1 s1)"
      by (auto simp: fsverity_verify_bio_def verify_bio_segments_def)
    with k(1) show ?thesis by simp
  next
    case True
    obtain ok2 c2 s2 where fl: "fsverity_verify_pending_blocks E c1 s1 = (ok2, c2, s2)"
      by (cases "fsverity_verify_pending_blocks E c1 s1") auto
    from flush_keeps_memo_sound [OF _ _ _ fl] assms(3,4) k have 2: "?G s2" by simp
    from a True fl assms(1,2) have "s' = s2 \<or> s' = snd (fsverity_clear_pending_blocks c2 s2)"
      by (cases ok2) (auto simp: fsverity_verify_bio_def verify_bio_segments_def)
    with 2 show ?thesis by auto
  qed
qed

text \<open>The example file meets the conditions, with either encoding.\<close>

lemma ex_memo_sound_all:
  "memo_params_ok ex_vi \<and> levels_distinct ex_inode (tree_params ex_vi) \<and>
   memo_sound_all E ex_inode ex_vi ex_state"
proof -
  have "memo_params_ok ex_vi" by (simp add: memo_params_ok_def ex_vi_def ex_params_def)
  moreover have "levels_distinct ex_inode (tree_params ex_vi)"
    by (simp add: levels_distinct_def ex_vi_def ex_params_def)
  moreover have "memo_sound_all E ex_inode ex_vi ex_state"
    by (rule fresh_memo_sound) (simp add: ex_state_def)
  ultimately show ?thesis by simp
qed

lemma ex_memo_sound_all_bitmap:
  "memo_params_ok ex_vi_bitmap \<and> levels_distinct ex_inode_bitmap (tree_params ex_vi_bitmap) \<and>
   memo_sound_all E ex_inode_bitmap ex_vi_bitmap ex_state"
proof -
  have "bitmap_params_ok (tree_params ex_vi_bitmap)" by code_simp
  moreover have "hash_block_verified ex_vi_bitmap" by (simp add: ex_vi_bitmap_def)
  ultimately have "memo_params_ok ex_vi_bitmap" by (simp add: memo_params_ok_def)
  moreover have "levels_distinct ex_inode_bitmap (tree_params ex_vi_bitmap)"
    by (simp add: levels_distinct_def ex_vi_bitmap_def ex_params_def)
  moreover have "memo_sound_all E ex_inode_bitmap ex_vi_bitmap ex_state"
    by (rule fresh_memo_sound) (simp add: ex_state_def)
  ultimately show ?thesis by simp
qed

end
